theory Spec2Isabelle
  imports Main "HOL-Library.Word"
begin

section \<open>A* grid pathfinder: embedding of \<^verbatim>\<open>A*.cpp\<close>\<close>

text \<open>
  The program is one C++ file: \<^verbatim>\<open>struct Node\<close>, \<^verbatim>\<open>get_neighbors\<close>, \<^verbatim>\<open>heuristic\<close>,
  \<^verbatim>\<open>reconstruct_path\<close> and \<^verbatim>\<open>a_star\<close>. The embedding keeps its structure:

  \<^item> \<^verbatim>\<open>int\<close> is a 32-bit word, read as two's complement by \<open>sint\<close>; \<open>+\<close> and \<open>-\<close> wrap.
  \<^item> \<^verbatim>\<open>Node *\<close> is a pointer \<open>ptr\<close>: the number of the allocation (\<^verbatim>\<open>new Node\<close>) that
    created the object, counted from 0 within one call of \<^verbatim>\<open>a_star\<close>. The objects live in a
    store (a list indexed by pointer); \<^verbatim>\<open>nullptr\<close> is \<open>None\<close>.
  \<^item> The open set is \<^verbatim>\<open>priority_queue<Node *, vector<Node *>, greater<Node *>>\<close>. Its
    comparator \<^verbatim>\<open>greater<Node *>\<close> compares the pointers themselves, that is the machine
    addresses of the nodes; \<^verbatim>\<open>Node::operator>\<close> (which compares \<open>f\<close>) takes
    \<^verbatim>\<open>const Node &\<close> and is never selected for \<^verbatim>\<open>Node *\<close> operands. The address of the
    \<open>k\<close>-th allocated node is decided by the allocator, not by the program, so it is a
    parameter \<open>addr\<close> of the model: \<open>addr k\<close> is the address of the node with pointer \<open>k\<close>.
    \<^verbatim>\<open>top()\<close> is the queued pointer of least address.
  \<^item> \<^verbatim>\<open>allNodes\<close> is an \<^verbatim>\<open>unordered_map\<close> whose hash and equality look only at the
    coordinates of the key node: a map from coordinates to the stored pointer.
  \<^item> \<open>g\<close>, \<open>h\<close>, \<open>f\<close> are \<^verbatim>\<open>double\<close>s that only ever hold sums of small integers, which
    \<^verbatim>\<open>double\<close> represents exactly; they are modelled as \<open>int\<close>.
  \<^item> Indexing a \<^verbatim>\<open>vector\<close> out of range is undefined behaviour in C++; the model returns
    \<open>Inl OutOfBounds\<close> at the first such access.
  \<^item> The two \<^verbatim>\<open>while\<close> loops are \<^theory_text>\<open>partial_function (option)\<close>: \<open>None\<close> is a loop
    that never exits.
  \<^item> The \<^verbatim>\<open>delete\<close> loops free memory after the result has been copied and do not change
    the returned value; they are not modelled.
\<close>

subsection \<open>Data\<close>

datatype error = OutOfBounds

type_synonym int32 = "32 word"
type_synonym coord = "int32 \<times> int32"
type_synonym grid = "int32 list list"
type_synonym ptr = nat

text \<open>
  \<^verbatim>\<open>struct Node { int x, y; double g, h, f; Node *parent; }\<close>. The field names carry the
  prefix \<open>node_\<close> because \<open>x\<close>, \<open>y\<close>, \<open>g\<close>, \<open>h\<close>, \<open>f\<close> would otherwise become global constants.
\<close>

record Node =
  node_x :: int32
  node_y :: int32
  node_g :: int
  node_h :: int
  node_f :: int
  node_parent :: "ptr option"

text \<open>
  The constructor as every call site uses it, \<^verbatim>\<open>new Node(x, y)\<close>: the defaults are
  \<^verbatim>\<open>g = 0.0, h = 0.0, parent = nullptr\<close>, and \<^verbatim>\<open>f(g + h)\<close>.
\<close>

definition new_Node :: "int32 \<Rightarrow> int32 \<Rightarrow> Node" where
  "new_Node x y =
     \<lparr>node_x = x, node_y = y, node_g = 0, node_h = 0, node_f = 0 + 0, node_parent = None\<rparr>"

definition coord_of :: "Node \<Rightarrow> coord" where
  "coord_of n = (node_x n, node_y n)"

subsection \<open>\<^verbatim>\<open>get_neighbors\<close>\<close>

text \<open>\<^verbatim>\<open>directions = {{-1, 0}, {1, 0}, {0, -1}, {0, 1}}\<close>: up, down, left, right.\<close>

definition directions :: "(int32 \<times> int32) list" where
  "directions = [(- 1, 0), (1, 0), (0, - 1), (0, 1)]"

text \<open>
  The \<^verbatim>\<open>for (auto &dir : directions)\<close> loop. The condition is the source's, in its order:
  \<^verbatim>\<open>newX >= 0 && newX < rows && newY >= 0 && newY < cols && grid[newX][newY] == 0\<close>.
  The read \<^verbatim>\<open>grid[newX][newY]\<close> happens only when the four comparisons hold; it is out of
  range when row \<open>newX\<close> does not exist or is shorter than \<open>newY + 1\<close>. The result is the
  list of freshly constructed nodes, in the order of \<^verbatim>\<open>push_back\<close>.
\<close>

fun scan_directions ::
  "grid \<Rightarrow> int32 \<Rightarrow> int32 \<Rightarrow> int32 \<Rightarrow> int32 \<Rightarrow> (int32 \<times> int32) list \<Rightarrow> error + Node list" where
  "scan_directions grid x y rows cols [] = Inr []"
| "scan_directions grid x y rows cols (dir # dirs) =
     (let newX = x + fst dir; newY = y + snd dir in
      if 0 \<le> sint newX \<and> sint newX < sint rows \<and> 0 \<le> sint newY \<and> sint newY < sint cols then
        (if nat (sint newX) < length grid \<and> nat (sint newY) < length (grid ! nat (sint newX)) then
           (if grid ! nat (sint newX) ! nat (sint newY) = 0 then
              (case scan_directions grid x y rows cols dirs of
                 Inl e \<Rightarrow> Inl e
               | Inr neighbors \<Rightarrow> Inr (new_Node newX newY # neighbors))
            else scan_directions grid x y rows cols dirs)
         else Inl OutOfBounds)
      else scan_directions grid x y rows cols dirs)"

text \<open>
  \<^verbatim>\<open>int rows = grid.size(); int cols = grid[0].size();\<close> The sizes are converted to
  \<^verbatim>\<open>int\<close> (\<open>word_of_nat\<close> truncates to 32 bits). \<^verbatim>\<open>grid[0]\<close> is read without a check:
  out of range when the grid has no row.
\<close>

definition get_neighbors :: "Node \<Rightarrow> grid \<Rightarrow> error + Node list" where
  "get_neighbors node grid =
     (let x = node_x node; y = node_y node;
          rows = (word_of_nat (length grid) :: int32) in
      if grid = [] then Inl OutOfBounds
      else
        (let cols = (word_of_nat (length (grid ! 0)) :: int32) in
         scan_directions grid x y rows cols directions))"

subsection \<open>\<^verbatim>\<open>heuristic\<close>\<close>

text \<open>
  \<^verbatim>\<open>return abs(a->x - b->x) + abs(a->y - b->y);\<close> computed in \<^verbatim>\<open>int\<close> and converted to
  \<^verbatim>\<open>double\<close>.
\<close>

definition abs32 :: "int32 \<Rightarrow> int32" where
  "abs32 v = (if sint v < 0 then - v else v)"

definition heuristic :: "Node \<Rightarrow> Node \<Rightarrow> int" where
  "heuristic a b = sint (abs32 (node_x a - node_x b) + abs32 (node_y a - node_y b))"

subsection \<open>\<^verbatim>\<open>reconstruct_path\<close>\<close>

text \<open>
  \<^verbatim>\<open>while (node) { path.emplace_back(node->x, node->y); node = node->parent; }\<close>
  followed by \<^verbatim>\<open>reverse\<close>. The loop follows \<open>parent\<close> pointers through the store and ends
  only if it meets \<^verbatim>\<open>nullptr\<close>.
\<close>

partial_function (option) reconstruct_walk ::
  "Node list \<Rightarrow> ptr option \<Rightarrow> coord list \<Rightarrow> coord list option" where
  "reconstruct_walk st node path =
     (case node of
        None \<Rightarrow> Some path
      | Some p \<Rightarrow>
          reconstruct_walk st (node_parent (st ! p)) (path @ [(node_x (st ! p), node_y (st ! p))]))"

declare reconstruct_walk.simps [code]

definition reconstruct_path :: "Node list \<Rightarrow> ptr option \<Rightarrow> coord list option" where
  "reconstruct_path st node = map_option rev (reconstruct_walk st node [])"

subsection \<open>\<^verbatim>\<open>a_star\<close>\<close>

text \<open>The local state of \<^verbatim>\<open>a_star\<close>: the nodes allocated so far, \<^verbatim>\<open>openSet\<close>, \<^verbatim>\<open>allNodes\<close>.\<close>

record search =
  store :: "Node list"
  openSet :: "ptr list"
  allNodes :: "coord \<rightharpoonup> ptr"

text \<open>
  \<^verbatim>\<open>openSet.top()\<close> and \<^verbatim>\<open>openSet.pop()\<close> under \<^verbatim>\<open>greater<Node *>\<close>: the queued pointer
  with the least address, and the queue without it. Distinct live objects have distinct
  addresses, so the least is unique in a run of the program; the model takes the first
  queued one should \<open>addr\<close> give two pointers the same address.
\<close>

definition top_pq :: "(ptr \<Rightarrow> nat) \<Rightarrow> ptr list \<Rightarrow> ptr" where
  "top_pq addr q = arg_min_list addr q"

definition pop_pq :: "(ptr \<Rightarrow> nat) \<Rightarrow> ptr list \<Rightarrow> ptr list" where
  "pop_pq addr q = remove1 (top_pq addr q) q"

text \<open>
  The \<^verbatim>\<open>for (auto &neighbor : neighbors)\<close> loop of \<^verbatim>\<open>a_star\<close>. The test is the source's:
  \<^verbatim>\<open>allNodes.find(neighbor) == allNodes.end() || tentative_g < neighbor->g\<close>, where
  \<^verbatim>\<open>neighbor\<close> is the node \<^verbatim>\<open>get_neighbors\<close> has just constructed (not the node the
  registry holds for that coordinate). The four assignments follow in the source's order.
\<close>

fun relax :: "ptr \<Rightarrow> Node \<Rightarrow> search \<Rightarrow> ptr list \<Rightarrow> search" where
  "relax current goalNode s [] = s"
| "relax current goalNode s (neighbor # rest) =
     (let nb = store s ! neighbor;
          tentative_g = node_g (store s ! current) + 1 in
      if allNodes s (node_x nb, node_y nb) = None \<or> tentative_g < node_g nb then
        (let nb1 = nb\<lparr>node_g := tentative_g\<rparr>;
             nb2 = nb1\<lparr>node_h := heuristic nb1 goalNode\<rparr>;
             nb3 = nb2\<lparr>node_f := node_g nb2 + node_h nb2\<rparr>;
             nb4 = nb3\<lparr>node_parent := Some current\<rparr> in
         relax current goalNode
           (s\<lparr>store := (store s)[neighbor := nb4],
              openSet := openSet s @ [neighbor],
              allNodes := (allNodes s)((node_x nb, node_y nb) \<mapsto> neighbor)\<rparr>) rest)
      else relax current goalNode s rest)"

text \<open>
  One pass through the body of \<^verbatim>\<open>while (!openSet.empty())\<close>: either the function returns
  (\<open>Return\<close>) or the loop goes on with a new state (\<open>Continue\<close>). The nodes
  \<^verbatim>\<open>get_neighbors\<close> allocates are appended to the store, so they receive the next
  pointers in the order of their construction, whether or not they are queued afterwards.
  The pass has no result (\<open>None\<close>) only if the loop of \<^verbatim>\<open>reconstruct_path\<close> does not
  exit.
\<close>

datatype step_result = Return "error + coord list" | Continue search

definition a_star_step ::
  "(ptr \<Rightarrow> nat) \<Rightarrow> grid \<Rightarrow> Node \<Rightarrow> search \<Rightarrow> step_result option" where
  "a_star_step addr grid goalNode s =
     (let current = top_pq addr (openSet s);
          s1 = s\<lparr>openSet := pop_pq addr (openSet s)\<rparr>;
          cur = store s1 ! current in
      if node_x cur = node_x goalNode \<and> node_y cur = node_y goalNode then
        map_option (\<lambda>path. Return (Inr path)) (reconstruct_path (store s1) (Some current))
      else
        (case get_neighbors cur grid of
           Inl e \<Rightarrow> Some (Return (Inl e))
         | Inr fresh \<Rightarrow>
             (let neighbors = [length (store s1) ..< length (store s1) + length fresh];
                  s2 = s1\<lparr>store := store s1 @ fresh\<rparr> in
              Some (Continue (relax current goalNode s2 neighbors)))))"

partial_function (option) a_star_loop ::
  "(ptr \<Rightarrow> nat) \<Rightarrow> grid \<Rightarrow> Node \<Rightarrow> search \<Rightarrow> (error + coord list) option" where
  "a_star_loop addr grid goalNode s =
     (if openSet s = [] then Some (Inr [])
      else
        (case a_star_step addr grid goalNode s of
           None \<Rightarrow> None
         | Some (Return r) \<Rightarrow> Some r
         | Some (Continue s') \<Rightarrow> a_star_loop addr grid goalNode s'))"

declare a_star_loop.simps [code]

text \<open>
  The state before the loop: \<^verbatim>\<open>startNode\<close> is pointer 0, \<^verbatim>\<open>goalNode\<close> is pointer 1,
  \<^verbatim>\<open>openSet.push(startNode); allNodes[startNode] = startNode;\<close>.
\<close>

definition a_star_init :: "coord \<Rightarrow> coord \<Rightarrow> search" where
  "a_star_init start goal =
     \<lparr>store = [new_Node (fst start) (snd start), new_Node (fst goal) (snd goal)],
      openSet = [0],
      allNodes = [(fst start, snd start) \<mapsto> 0]\<rparr>"

definition a_star ::
  "(ptr \<Rightarrow> nat) \<Rightarrow> grid \<Rightarrow> coord \<Rightarrow> coord \<Rightarrow> (error + coord list) option" where
  "a_star addr grid start goal =
     a_star_loop addr grid (new_Node (fst goal) (snd goal)) (a_star_init start goal)"

text \<open>The state after \<open>n\<close> passes through the loop body, for statements about a pass.\<close>

fun a_star_steps ::
  "nat \<Rightarrow> (ptr \<Rightarrow> nat) \<Rightarrow> grid \<Rightarrow> Node \<Rightarrow> search \<Rightarrow> step_result option" where
  "a_star_steps 0 addr grid goalNode s = Some (Continue s)"
| "a_star_steps (Suc n) addr grid goalNode s =
     (if openSet s = [] then Some (Return (Inr []))
      else
        (case a_star_step addr grid goalNode s of
           None \<Rightarrow> None
         | Some (Return r) \<Rightarrow> Some (Return r)
         | Some (Continue s') \<Rightarrow> a_star_steps n addr grid goalNode s'))"

subsection \<open>Vocabulary of the specification\<close>

text \<open>A cell is walkable when it lies in the grid and holds 0.\<close>

definition walkable :: "grid \<Rightarrow> coord \<Rightarrow> bool" where
  "walkable grid c =
     (0 \<le> sint (fst c) \<and> nat (sint (fst c)) < length grid \<and>
      0 \<le> sint (snd c) \<and> nat (sint (snd c)) < length (grid ! nat (sint (fst c))) \<and>
      grid ! nat (sint (fst c)) ! nat (sint (snd c)) = 0)"

text \<open>Two coordinates are orthogonally adjacent: they differ by one unit step.\<close>

definition adjacent :: "coord \<Rightarrow> coord \<Rightarrow> bool" where
  "adjacent p q = (\<bar>sint (fst p) - sint (fst q)\<bar> + \<bar>sint (snd p) - sint (snd q)\<bar> = 1)"

text \<open>
  A move goes from any coordinate to an adjacent walkable cell. The goal is reachable
  when moves lead from the start to it; the coordinate a path starts from need not be
  walkable itself, as in the source, which never looks up the cell of the start.
\<close>

definition move :: "grid \<Rightarrow> coord \<Rightarrow> coord \<Rightarrow> bool" where
  "move grid p q = (adjacent p q \<and> walkable grid q)"

definition complete_path :: "grid \<Rightarrow> coord \<Rightarrow> coord \<Rightarrow> coord list \<Rightarrow> bool" where
  "complete_path grid start goal path =
     (path \<noteq> [] \<and> hd path = start \<and> last path = goal \<and> successively (move grid) path)"

definition reachable :: "grid \<Rightarrow> coord \<Rightarrow> coord \<Rightarrow> bool" where
  "reachable grid start goal = ((start, goal) \<in> {(p, q). move grid p q}\<^sup>*)"

text \<open>A grid as the data model has it: at least one row, all rows of one length.\<close>

definition rectangular :: "grid \<Rightarrow> bool" where
  "rectangular grid = (grid \<noteq> [] \<and> (\<forall>row \<in> set grid. length row = length (grid ! 0)))"

text \<open>Both dimensions fit in \<^verbatim>\<open>int\<close>, so that \<^verbatim>\<open>rows\<close> and \<^verbatim>\<open>cols\<close> are the true sizes.\<close>

definition int_sized :: "grid \<Rightarrow> bool" where
  "int_sized grid = (length grid < 2 ^ 31 \<and> length (grid ! 0) < 2 ^ 31)"

subsection \<open>Allocators and inputs of the examples\<close>

text \<open>
  Two allocators used in the examples: addresses grow with each allocation, or shrink
  (over the first 1000 allocations, more than any example makes).
\<close>

definition ascending :: "ptr \<Rightarrow> nat" where
  "ascending k = k"

definition descending :: "ptr \<Rightarrow> nat" where
  "descending k = 1000 - k"

text \<open>
  The open 3 by 3 grid, and the \<open>f\<close> values of the six nodes that exist after the first
  pass of a search from its centre (1, 1), together with the open set.
\<close>

definition open3 :: grid where
  "open3 = [[0, 0, 0], [0, 0, 0], [0, 0, 0]]"

definition f_after_first_pass :: "coord \<Rightarrow> (ptr list \<times> int list) option" where
  "f_after_first_pass goal =
     (case a_star_steps 1 ascending open3 (new_Node (fst goal) (snd goal))
             (a_star_init (1, 1) goal) of
        Some (Continue s) \<Rightarrow> Some (openSet s, map (\<lambda>p. node_f (store s ! p)) [0, 1, 2, 3, 4, 5])
      | _ \<Rightarrow> None)"

subsection \<open>Predicates of the proofs\<close>

text \<open>
  The four comparisons of \<^verbatim>\<open>get_neighbors\<close> at a candidate coordinate, and the existence
  of the cell that \<^verbatim>\<open>grid[newX][newY]\<close> then reads.
\<close>

definition in_range :: "int32 \<Rightarrow> int32 \<Rightarrow> coord \<Rightarrow> bool" where
  "in_range rows cols c =
     (0 \<le> sint (fst c) \<and> sint (fst c) < sint rows \<and> 0 \<le> sint (snd c) \<and> sint (snd c) < sint cols)"

definition cell_exists :: "grid \<Rightarrow> coord \<Rightarrow> bool" where
  "cell_exists grid c =
     (nat (sint (fst c)) < length grid \<and> nat (sint (snd c)) < length (grid ! nat (sint (fst c))))"

text \<open>
  A pointer is registered when \<^verbatim>\<open>allNodes\<close> maps the coordinate of its node to it.
\<close>

definition registered :: "search \<Rightarrow> ptr \<Rightarrow> bool" where
  "registered s p = (p < length (store s) \<and> allNodes s (coord_of (store s ! p)) = Some p)"

text \<open>
  The invariant of the main loop. Pointer 0 is the start node, registered and without
  parent. Every queued pointer is registered. The registry is keyed by the coordinate of
  the node it holds. A registered node has \<open>g \<ge> 0\<close>. A registered node other than the
  start lies on a walkable cell, and its parent is a registered node that was allocated
  earlier and lies on an adjacent cell.
\<close>

definition search_inv :: "grid \<Rightarrow> coord \<Rightarrow> search \<Rightarrow> bool" where
  "search_inv grid start s =
     (registered s 0 \<and> coord_of (store s ! 0) = start \<and> node_parent (store s ! 0) = None \<and>
      (\<forall>p \<in> set (openSet s). registered s p) \<and>
      (\<forall>c p. allNodes s c = Some p \<longrightarrow> p < length (store s) \<and> coord_of (store s ! p) = c) \<and>
      (\<forall>p. registered s p \<longrightarrow> 0 \<le> node_g (store s ! p)) \<and>
      (\<forall>p. registered s p \<and> p \<noteq> 0 \<longrightarrow>
           walkable grid (coord_of (store s ! p)) \<and>
           (\<exists>q. q < p \<and> node_parent (store s ! p) = Some q \<and> registered s q \<and>
                adjacent (coord_of (store s ! q)) (coord_of (store s ! p)))))"

text \<open>
  The state after the body of the \<^verbatim>\<open>if\<close> in the neighbour loop has run for \<open>neighbor\<close>.
\<close>

definition admit :: "ptr \<Rightarrow> Node \<Rightarrow> search \<Rightarrow> ptr \<Rightarrow> search" where
  "admit current goalNode s neighbor =
     s\<lparr>store := (store s)[neighbor := (store s ! neighbor)
          \<lparr>node_g := node_g (store s ! current) + 1,
           node_h := heuristic (store s ! neighbor) goalNode,
           node_f := node_g (store s ! current) + 1 + heuristic (store s ! neighbor) goalNode,
           node_parent := Some current\<rparr>],
       openSet := openSet s @ [neighbor],
       allNodes := (allNodes s)(coord_of (store s ! neighbor) \<mapsto> neighbor)\<rparr>"

text \<open>
  What the neighbour loop relies on for the pointers it still has to visit: they are
  distinct, allocated after \<open>current\<close>, still as constructed (\<open>g = 0\<close>), on walkable cells
  adjacent to the cell of \<open>current\<close>.
\<close>

definition fresh_ok :: "grid \<Rightarrow> search \<Rightarrow> ptr \<Rightarrow> ptr list \<Rightarrow> bool" where
  "fresh_ok grid s current ns =
     (distinct ns \<and>
      (\<forall>n \<in> set ns. n < length (store s) \<and> current < n \<and> node_g (store s ! n) = 0 \<and>
         walkable grid (coord_of (store s ! n)) \<and>
         adjacent (coord_of (store s ! current)) (coord_of (store s ! n))))"

text \<open>
  The coordinates \<^verbatim>\<open>reconstruct_path\<close> collects from pointer \<open>p\<close> back to the start, before
  the reversal; and the shape of the path it returns.
\<close>

definition chain_ok :: "grid \<Rightarrow> coord \<Rightarrow> search \<Rightarrow> ptr \<Rightarrow> coord list \<Rightarrow> bool" where
  "chain_ok grid start s p cs =
     (cs \<noteq> [] \<and> hd cs = coord_of (store s ! p) \<and> last cs = start \<and>
      successively (\<lambda>a b. adjacent b a) cs \<and>
      (\<forall>c \<in> set (butlast cs). walkable grid c) \<and> distinct cs \<and>
      (\<forall>c \<in> set cs. \<exists>q. q \<le> p \<and> registered s q \<and> coord_of (store s ! q) = c))"

definition path_ok :: "grid \<Rightarrow> coord \<Rightarrow> coord \<Rightarrow> coord list \<Rightarrow> bool" where
  "path_ok grid start goal path =
     (path \<noteq> [] \<and> hd path = start \<and> last path = goal \<and> successively adjacent path \<and>
      (\<forall>c \<in> set (tl path). walkable grid c) \<and> distinct path)"

text \<open>
  What the main loop returns: an out-of-range access only on a grid that is not
  rectangular; otherwise the empty sequence or a well-shaped path.
\<close>

definition result_ok :: "grid \<Rightarrow> coord \<Rightarrow> coord \<Rightarrow> error + coord list \<Rightarrow> bool" where
  "result_ok grid start goal r =
     (case r of
        Inl e \<Rightarrow> \<not> rectangular grid
      | Inr path \<Rightarrow> path = [] \<or> path_ok grid start goal path)"

text \<open>
  Every registered node that has left the open set has been expanded: it is not on the
  goal, and every move from its cell leads to a registered coordinate.
\<close>

definition expanded_closed :: "grid \<Rightarrow> coord \<Rightarrow> search \<Rightarrow> bool" where
  "expanded_closed grid goal s =
     (\<forall>p. registered s p \<and> p \<notin> set (openSet s) \<longrightarrow>
        coord_of (store s ! p) \<noteq> goal \<and>
        (\<forall>c. move grid (coord_of (store s ! p)) c \<longrightarrow> allNodes s c \<noteq> None))"

text \<open>
  The order in which the loop descends: the set of coordinates not yet registered
  shrinks, or it stays and the open set gets shorter.
\<close>

definition search_order :: "(search \<times> search) set" where
  "search_order =
     inv_image (finite_psubset <*lex*> less_than)
       (\<lambda>s. (- dom (allNodes s), length (openSet s)))"

section \<open>Arithmetic of 32-bit coordinates\<close>

lemma sint_bounds32: "- 2147483648 \<le> sint (a :: int32) \<and> sint a < 2147483648"
  using sint_ge [of a] sint_lt [of a] by simp

lemma sint_plus_one:
  "sint (a + 1 :: int32) = (if sint a = 2147483647 then - 2147483648 else sint a + 1)"
proof (cases "sint a = 2147483647")
  case True
  then show ?thesis
    by (simp add: sint_word_ariths signed_take_bit_eq_take_bit_shift)
next
  case False
  with sint_bounds32 [of a] have "- (2 ^ 31) \<le> sint a + 1 \<and> sint a + 1 < 2 ^ 31" by simp
  then have "signed_take_bit 31 (sint a + 1) = sint a + 1"
    by (simp add: signed_take_bit_int_eq_self)
  with False show ?thesis by (simp add: sint_word_ariths)
qed

lemma sint_minus_one:
  "sint (a - 1 :: int32) = (if sint a = - 2147483648 then 2147483647 else sint a - 1)"
proof (cases "sint a = - 2147483648")
  case True
  then show ?thesis
    by (simp add: sint_word_ariths signed_take_bit_eq_take_bit_shift mask_eq_exp_minus_1)
next
  case False
  with sint_bounds32 [of a] have "- (2 ^ 31) \<le> sint a - 1 \<and> sint a - 1 < 2 ^ 31" by simp
  then have "signed_take_bit 31 (sint a - 1) = sint a - 1"
    by (simp add: signed_take_bit_int_eq_self)
  with False show ?thesis by (simp add: sint_word_ariths)
qed

lemma sint_of_nat_le: "sint (word_of_nat n :: int32) \<le> int n"
  by (simp add: signed_of_nat signed_take_bit_int_less_eq_self_iff)

lemma sint_of_nat_eq: "n < 2147483648 \<Longrightarrow> sint (word_of_nat n :: int32) = int n"
  by (simp add: signed_of_nat signed_take_bit_int_eq_self)

lemma adjacent_up: "sint (x - 1) < 2147483647 \<Longrightarrow> adjacent (x, y) (x - 1, y)"
  using sint_bounds32 [of x] by (simp add: adjacent_def sint_minus_one split: if_splits)

lemma adjacent_down: "0 \<le> sint (x + 1) \<Longrightarrow> adjacent (x, y) (x + 1, y)"
  using sint_bounds32 [of x] by (simp add: adjacent_def sint_plus_one split: if_splits)

lemma adjacent_left: "sint (y - 1) < 2147483647 \<Longrightarrow> adjacent (x, y) (x, y - 1)"
  using sint_bounds32 [of y] by (simp add: adjacent_def sint_minus_one split: if_splits)

lemma adjacent_right: "0 \<le> sint (y + 1) \<Longrightarrow> adjacent (x, y) (x, y + 1)"
  using sint_bounds32 [of y] by (simp add: adjacent_def sint_plus_one split: if_splits)

lemma word_eq_of_sint_plus: "sint (a :: int32) = sint b + 1 \<Longrightarrow> a = b + 1"
proof -
  assume "sint a = sint b + 1"
  then have "word_of_int (sint a) = (word_of_int (sint b + 1) :: int32)" by simp
  then show ?thesis by simp
qed

lemma word_eq_of_sint_minus: "sint (a :: int32) = sint b - 1 \<Longrightarrow> a = b - 1"
proof -
  assume "sint a = sint b - 1"
  then have "word_of_int (sint a) = (word_of_int (sint b - 1) :: int32)" by simp
  then show ?thesis by simp
qed

lemma word_eq_of_sint: "sint (a :: int32) = sint b \<Longrightarrow> a = b"
proof -
  assume "sint a = sint b"
  then have "word_of_int (sint a) = (word_of_int (sint b) :: int32)" by simp
  then show ?thesis by simp
qed

lemma adjacent_cases:
  assumes "adjacent (x, y) c"
  shows "c \<in> {(x - 1, y), (x + 1, y), (x, y - 1), (x, y + 1)}"
proof -
  obtain cx cy where c: "c = (cx, cy)" by (cases c)
  from assms c have "\<bar>sint x - sint cx\<bar> + \<bar>sint y - sint cy\<bar> = 1"
    by (simp add: adjacent_def)
  then consider "sint cx = sint x - 1" "sint cy = sint y" | "sint cx = sint x + 1" "sint cy = sint y"
    | "sint cx = sint x" "sint cy = sint y - 1" | "sint cx = sint x" "sint cy = sint y + 1"
    by linarith
  then show ?thesis
  proof cases
    case 1
    then have "cx = x - 1" "cy = y"
      by (simp_all add: word_eq_of_sint_minus word_eq_of_sint)
    then show ?thesis by (simp add: c)
  next
    case 2
    then have "cx = x + 1" "cy = y"
      by (simp_all add: word_eq_of_sint_plus word_eq_of_sint)
    then show ?thesis by (simp add: c)
  next
    case 3
    then have "cx = x" "cy = y - 1"
      by (simp_all add: word_eq_of_sint_minus word_eq_of_sint)
    then show ?thesis by (simp add: c)
  next
    case 4
    then have "cx = x" "cy = y + 1"
      by (simp_all add: word_eq_of_sint_plus word_eq_of_sint)
    then show ?thesis by (simp add: c)
  qed
qed

section \<open>Neighbour generation\<close>

lemma scan_directions_Cons:
  "scan_directions grid x y rows cols (d # dirs) =
     (if in_range rows cols (x + fst d, y + snd d) then
        (if cell_exists grid (x + fst d, y + snd d) then
           (if grid ! nat (sint (x + fst d)) ! nat (sint (y + snd d)) = 0 then
              (case scan_directions grid x y rows cols dirs of
                 Inl e \<Rightarrow> Inl e
               | Inr neighbors \<Rightarrow> Inr (new_Node (x + fst d) (y + snd d) # neighbors))
            else scan_directions grid x y rows cols dirs)
         else Inl OutOfBounds)
      else scan_directions grid x y rows cols dirs)"
  by (simp add: Let_def in_range_def cell_exists_def)

lemma scan_directions_exact:
  assumes "\<forall>d \<in> set dirs. in_range rows cols (x + fst d, y + snd d) \<longrightarrow>
             cell_exists grid (x + fst d, y + snd d)"
  shows "scan_directions grid x y rows cols dirs =
     Inr (map (\<lambda>d. new_Node (x + fst d) (y + snd d))
            (filter (\<lambda>d. in_range rows cols (x + fst d, y + snd d) \<and>
                         grid ! nat (sint (x + fst d)) ! nat (sint (y + snd d)) = 0) dirs))"
  using assms
proof (induction dirs)
  case Nil
  show ?case by simp
next
  case (Cons d dirs)
  then have ih: "scan_directions grid x y rows cols dirs =
     Inr (map (\<lambda>d. new_Node (x + fst d) (y + snd d))
            (filter (\<lambda>d. in_range rows cols (x + fst d, y + snd d) \<and>
                         grid ! nat (sint (x + fst d)) ! nat (sint (y + snd d)) = 0) dirs))"
    by simp
  from Cons.prems have here: "in_range rows cols (x + fst d, y + snd d) \<Longrightarrow>
      cell_exists grid (x + fst d, y + snd d)"
    by simp
  show ?case
  proof (cases "in_range rows cols (x + fst d, y + snd d)")
    case True
    with here have "cell_exists grid (x + fst d, y + snd d)" by simp
    with True show ?thesis
      by (simp only: scan_directions_Cons ih) simp
  next
    case False
    then show ?thesis
      by (simp only: scan_directions_Cons ih) simp
  qed
qed

lemma scan_directions_sound:
  "scan_directions grid x y rows cols dirs = Inr ns \<Longrightarrow> n \<in> set ns \<Longrightarrow>
     \<exists>d \<in> set dirs. n = new_Node (x + fst d) (y + snd d) \<and>
        in_range rows cols (x + fst d, y + snd d) \<and> walkable grid (x + fst d, y + snd d)"
proof (induction dirs arbitrary: ns)
  case Nil
  then show ?case by simp
next
  case (Cons d dirs)
  show ?case
  proof (cases "in_range rows cols (x + fst d, y + snd d) \<and>
                grid ! nat (sint (x + fst d)) ! nat (sint (y + snd d)) = 0")
    case True
    with Cons.prems(1) obtain ms where
      ms: "scan_directions grid x y rows cols dirs = Inr ms"
        "ns = new_Node (x + fst d) (y + snd d) # ms"
        "cell_exists grid (x + fst d, y + snd d)"
      by (simp only: scan_directions_Cons) (auto split: if_splits sum.splits)
    show ?thesis
    proof (cases "n \<in> set ms")
      case True
      with Cons.IH [OF ms(1)] show ?thesis by auto
    next
      case False
      with Cons.prems(2) ms(2) have "n = new_Node (x + fst d) (y + snd d)" by simp
      moreover from True ms(3) have "walkable grid (x + fst d, y + snd d)"
        by (simp add: walkable_def in_range_def cell_exists_def)
      ultimately show ?thesis using True by auto
    qed
  next
    case False
    with Cons.prems(1) have "scan_directions grid x y rows cols dirs = Inr ns"
      by (simp only: scan_directions_Cons) (auto split: if_splits sum.splits)
    from Cons.IH [OF this Cons.prems(2)] show ?thesis by auto
  qed
qed

lemma index_in_range:
  "0 \<le> sint (a :: int32) \<Longrightarrow> sint a < sint (word_of_nat n :: int32) \<Longrightarrow> nat (sint a) < n"
  using sint_of_nat_le [of n] by linarith

lemma rectangular_cell_exists:
  assumes "rectangular grid"
    and "in_range (word_of_nat (length grid)) (word_of_nat (length (grid ! 0))) c"
  shows "cell_exists grid c"
proof -
  from assms(2) have row: "nat (sint (fst c)) < length grid"
    unfolding in_range_def by (blast intro: index_in_range)
  from assms(2) have col: "nat (sint (snd c)) < length (grid ! 0)"
    unfolding in_range_def by (blast intro: index_in_range)
  from row have "grid ! nat (sint (fst c)) \<in> set grid" by (rule nth_mem)
  with assms(1) have "length (grid ! nat (sint (fst c))) = length (grid ! 0)"
    unfolding rectangular_def by blast
  with row col show ?thesis unfolding cell_exists_def by simp
qed

lemma get_neighbors_rectangular:
  assumes "rectangular grid"
  shows "get_neighbors node grid =
     Inr (map (\<lambda>d. new_Node (node_x node + fst d) (node_y node + snd d))
            (filter (\<lambda>d. in_range (word_of_nat (length grid)) (word_of_nat (length (grid ! 0)))
                           (node_x node + fst d, node_y node + snd d) \<and>
                         grid ! nat (sint (node_x node + fst d)) ! nat (sint (node_y node + snd d)) = 0)
               directions))"
proof -
  from assms have "grid \<noteq> []" by (simp add: rectangular_def)
  moreover have "scan_directions grid (node_x node) (node_y node)
       (word_of_nat (length grid)) (word_of_nat (length (grid ! 0))) directions = 
     Inr (map (\<lambda>d. new_Node (node_x node + fst d) (node_y node + snd d))
            (filter (\<lambda>d. in_range (word_of_nat (length grid)) (word_of_nat (length (grid ! 0)))
                           (node_x node + fst d, node_y node + snd d) \<and>
                         grid ! nat (sint (node_x node + fst d)) ! nat (sint (node_y node + snd d)) = 0)
               directions))"
    by (rule scan_directions_exact) (simp add: rectangular_cell_exists [OF assms])
  ultimately show ?thesis by (simp add: get_neighbors_def Let_def)
qed

lemma get_neighbors_sound:
  assumes "get_neighbors node grid = Inr ns" and "n \<in> set ns"
  shows "node_g n = 0 \<and> node_parent n = None \<and> walkable grid (coord_of n) \<and>
         adjacent (coord_of node) (coord_of n)"
proof -
  let ?rows = "word_of_nat (length grid) :: int32"
  let ?cols = "word_of_nat (length (grid ! 0)) :: int32"
  let ?x = "node_x node" and ?y = "node_y node"
  from assms(1) have "scan_directions grid ?x ?y ?rows ?cols directions = Inr ns"
    by (simp add: get_neighbors_def Let_def split: if_splits)
  from scan_directions_sound [OF this assms(2)] obtain d where
    d: "d \<in> set directions" "n = new_Node (?x + fst d) (?y + snd d)"
       "in_range ?rows ?cols (?x + fst d, ?y + snd d)" "walkable grid (?x + fst d, ?y + snd d)"
    by blast
  from d(3) sint_bounds32 [of ?rows] sint_bounds32 [of ?cols]
  have b: "0 \<le> sint (?x + fst d)" "sint (?x + fst d) < 2147483647"
          "0 \<le> sint (?y + snd d)" "sint (?y + snd d) < 2147483647"
    by (simp_all add: in_range_def)
  from d(1) have "d = (- 1, 0) \<or> d = (1, 0) \<or> d = (0, - 1) \<or> d = (0, 1)"
    by (simp add: directions_def)
  with b have "adjacent (?x, ?y) (?x + fst d, ?y + snd d)"
    by (auto simp: adjacent_up adjacent_down adjacent_left adjacent_right)
  with d(2,4) show ?thesis
    by (simp add: new_Node_def coord_of_def)
qed

lemma walkable_in_range:
  assumes "rectangular grid" "int_sized grid"
  shows "(in_range (word_of_nat (length grid)) (word_of_nat (length (grid ! 0))) c \<and>
          grid ! nat (sint (fst c)) ! nat (sint (snd c)) = 0) = walkable grid c"
proof -
  from assms(2) have n: "length grid < 2147483648" and m: "length (grid ! 0) < 2147483648"
    by (simp_all add: int_sized_def)
  have R: "sint (word_of_nat (length grid) :: int32) = int (length grid)"
    using n by (rule sint_of_nat_eq)
  have C: "sint (word_of_nat (length (grid ! 0)) :: int32) = int (length (grid ! 0))"
    using m by (rule sint_of_nat_eq)
  have row: "length (grid ! nat (sint (fst c))) = length (grid ! 0)"
    if "nat (sint (fst c)) < length grid"
  proof -
    from that have "grid ! nat (sint (fst c)) \<in> set grid" by (rule nth_mem)
    with assms(1) show ?thesis unfolding rectangular_def by blast
  qed
  show ?thesis
    unfolding in_range_def walkable_def R C
    using row by (cases "nat (sint (fst c)) < length grid") auto
qed

lemma get_neighbors_exact:
  assumes "rectangular grid" "int_sized grid"
  shows "get_neighbors node grid =
     Inr (map (\<lambda>c. new_Node (fst c) (snd c))
            (filter (walkable grid)
               [(node_x node - 1, node_y node), (node_x node + 1, node_y node),
                (node_x node, node_y node - 1), (node_x node, node_y node + 1)]))"
  using walkable_in_range [OF assms, symmetric]
  by (simp add: get_neighbors_rectangular [OF assms(1)] directions_def)

lemma get_neighbors_complete:
  assumes "rectangular grid" "int_sized grid" "move grid (coord_of node) c"
  shows "\<exists>fresh. get_neighbors node grid = Inr fresh \<and> c \<in> coord_of ` set fresh"
proof -
  let ?cands = "[(node_x node - 1, node_y node), (node_x node + 1, node_y node),
                 (node_x node, node_y node - 1), (node_x node, node_y node + 1)]"
  from assms(3) have a: "adjacent (node_x node, node_y node) c" and w: "walkable grid c"
    by (simp_all add: move_def coord_of_def)
  from adjacent_cases [OF a] have "c \<in> set ?cands" by simp
  with w have "c \<in> set (filter (walkable grid) ?cands)"
    unfolding set_filter by simp
  then have "new_Node (fst c) (snd c) \<in>
      set (map (\<lambda>c. new_Node (fst c) (snd c)) (filter (walkable grid) ?cands))"
    unfolding set_map by (rule imageI)
  then have "coord_of (new_Node (fst c) (snd c)) \<in>
      coord_of ` set (map (\<lambda>c. new_Node (fst c) (snd c)) (filter (walkable grid) ?cands))"
    by (rule imageI)
  moreover have "coord_of (new_Node (fst c) (snd c)) = c"
    by (simp add: coord_of_def new_Node_def)
  ultimately have "c \<in>
      coord_of ` set (map (\<lambda>c. new_Node (fst c) (snd c)) (filter (walkable grid) ?cands))"
    by (simp only:)
  with get_neighbors_exact [OF assms(1,2), of node] show ?thesis
    by blast
qed

text \<open>
  Claim C8. As stated (for every grid) the claim fails: on the grid without rows
  \<^verbatim>\<open>get_neighbors\<close> reads \<^verbatim>\<open>grid[0]\<close>, which does not exist. Amended: for every node
  coordinate and every grid that has at least one row, whose rows all have one length and
  whose dimensions fit in \<^verbatim>\<open>int\<close>, \<^verbatim>\<open>get_neighbors\<close> returns nodes for exactly the
  coordinates one orthogonal step away that are walkable cells of the grid, at most four
  of them, in the order up, down, left, right.
\<close>

theorem get_neighbors_spec:
  assumes "rectangular grid" "int_sized grid"
  shows "\<exists>neighbors. get_neighbors node grid = Inr neighbors \<and>
           map coord_of neighbors =
             filter (walkable grid)
               [(node_x node - 1, node_y node), (node_x node + 1, node_y node),
                (node_x node, node_y node - 1), (node_x node, node_y node + 1)] \<and>
           set (map coord_of neighbors) = {c. adjacent (coord_of node) c \<and> walkable grid c} \<and>
           length neighbors \<le> 4"
proof -
  let ?x = "node_x node" and ?y = "node_y node"
  let ?cands = "[(?x - 1, ?y), (?x + 1, ?y), (?x, ?y - 1), (?x, ?y + 1)]"
  let ?ns = "map (\<lambda>c. new_Node (fst c) (snd c)) (filter (walkable grid) ?cands)"
  have g: "get_neighbors node grid = Inr ?ns"
    using assms by (rule get_neighbors_exact)
  have "map coord_of (map (\<lambda>c. new_Node (fst c) (snd c)) cs) = cs" for cs :: "coord list"
    by (induction cs) (simp_all add: coord_of_def new_Node_def)
  then have m: "map coord_of ?ns = filter (walkable grid) ?cands"
    by blast
  have big: "sint (fst c) < 2147483647 \<and> sint (snd c) < 2147483647 \<and> 0 \<le> sint (fst c) \<and> 0 \<le> sint (snd c)"
    if "walkable grid c" for c
  proof -
    from that have r: "0 \<le> sint (fst c)" "nat (sint (fst c)) < length grid"
      "0 \<le> sint (snd c)" "nat (sint (snd c)) < length (grid ! nat (sint (fst c)))"
      by (simp_all add: walkable_def)
    from r(2) have "grid ! nat (sint (fst c)) \<in> set grid" by (rule nth_mem)
    with assms(1) have "length (grid ! nat (sint (fst c))) = length (grid ! 0)"
      unfolding rectangular_def by blast
    with r assms(2) show ?thesis
      unfolding int_sized_def by simp linarith
  qed
  have adj: "adjacent (?x, ?y) c" if "c \<in> set ?cands" "walkable grid c" for c
    using that(1) big [OF that(2)]
    by (auto simp: adjacent_up adjacent_down adjacent_left adjacent_right)
  have s: "set (filter (walkable grid) ?cands) = {c. adjacent (coord_of node) c \<and> walkable grid c}"
  proof (intro set_eqI iffI)
    fix c assume "c \<in> set (filter (walkable grid) ?cands)"
    then have "c \<in> set ?cands" "walkable grid c"
      unfolding set_filter by blast+
    with adj show "c \<in> {c. adjacent (coord_of node) c \<and> walkable grid c}"
      by (simp add: coord_of_def)
  next
    fix c assume "c \<in> {c. adjacent (coord_of node) c \<and> walkable grid c}"
    then have "adjacent (?x, ?y) c" "walkable grid c" by (simp_all add: coord_of_def)
    with adjacent_cases [of ?x ?y c] show "c \<in> set (filter (walkable grid) ?cands)"
      unfolding set_filter by simp
  qed
  have "length (filter (walkable grid) ?cands) \<le> length ?cands"
    by (rule length_filter_le)
  then have l: "length ?ns \<le> 4" by simp
  from m s have s': "set (map coord_of ?ns) = {c. adjacent (coord_of node) c \<and> walkable grid c}"
    by (simp only:)
  from g m s' l show ?thesis
    by blast
qed

lemma rect_ex3: "rectangular [[0, 0, 0], [0, 1, 0], [0, 0, 0]]"
  by (simp add: rectangular_def)

lemma sized_ex3: "int_sized [[0, 0, 0], [0, 1, 0], [0, 0, 0]]"
  by (simp add: int_sized_def)

theorem get_neighbors_spec_witness:
  "rectangular [[0, 0, 0], [0, 1, 0], [0, 0, 0]] \<and> int_sized [[0, 0, 0], [0, 1, 0], [0, 0, 0]] \<and>
   (\<exists>neighbors. get_neighbors (new_Node 0 0) [[0, 0, 0], [0, 1, 0], [0, 0, 0]] = Inr neighbors \<and>
      map coord_of neighbors = [(1, 0), (0, 1)])"
proof -
  let ?G = "[[0, 0, 0], [0, 1, 0], [0, 0, 0]] :: grid"
  let ?n = "new_Node 0 0"
  from get_neighbors_spec [OF rect_ex3 sized_ex3, of ?n] obtain neighbors where
    n: "get_neighbors ?n ?G = Inr neighbors"
      "map coord_of neighbors =
         filter (walkable ?G)
           [(node_x ?n - 1, node_y ?n), (node_x ?n + 1, node_y ?n),
            (node_x ?n, node_y ?n - 1), (node_x ?n, node_y ?n + 1)]"
    by blast
  have "filter (walkable ?G)
           [(node_x ?n - 1, node_y ?n), (node_x ?n + 1, node_y ?n),
            (node_x ?n, node_y ?n - 1), (node_x ?n, node_y ?n + 1)] = [(1, 0), (0, 1)]"
    by (simp add: new_Node_def walkable_def)
  with n rect_ex3 sized_ex3 show ?thesis by simp
qed

text \<open>The grid without rows: the read of \<^verbatim>\<open>grid[0]\<close> is out of range.\<close>

theorem get_neighbors_empty_grid: "get_neighbors (new_Node 0 0) [] = Inl OutOfBounds"
  by code_simp

text \<open>
  Rows of different lengths: \<^verbatim>\<open>cols\<close> is the length of row 0, so the cell below (0, 1)
  passes the four comparisons, and row 1 has no column 1.
\<close>

lemma get_neighbors_ragged_grid: "get_neighbors (new_Node 0 1) [[0, 0], [0]] = Inl OutOfBounds"
  by code_simp

text \<open>
  More rows than \<^verbatim>\<open>int\<close> can count: with \<open>2\<^sup>3\<^sup>1\<close> rows of one walkable cell,
  \<^verbatim>\<open>int rows = grid.size()\<close> is negative, no candidate passes \<^verbatim>\<open>newX < rows\<close>, and the
  walkable cell below (0, 0) is not returned.
\<close>

lemma rows_oversized: "sint (word_of_nat (length (replicate 2147483648 [0 :: int32])) :: int32) = - 2147483648"
  by (simp add: signed_of_nat signed_take_bit_eq_take_bit_shift)

lemma get_neighbors_oversized_grid:
  "get_neighbors (new_Node 0 0) (replicate 2147483648 [0]) = Inr []"
  "walkable (replicate 2147483648 [0]) (1, 0)"
  "adjacent (0, 0) (1, 0)"
proof -
  have ne: "replicate 2147483648 [0 :: int32] \<noteq> []" by simp
  have r: "\<not> sint a < sint (word_of_nat (length (replicate 2147483648 [0 :: int32])) :: int32)" for a :: int32
    using sint_bounds32 [of a] by (simp only: rows_oversized) simp
  have "scan_directions (replicate 2147483648 [0 :: int32]) x y
      (word_of_nat (length (replicate 2147483648 [0 :: int32]))) cols dirs = Inr []" for x y cols dirs
    by (induction dirs) (simp_all only: scan_directions_Cons in_range_def r scan_directions.simps, simp_all)
  with ne show "get_neighbors (new_Node 0 0) (replicate 2147483648 [0]) = Inr []"
    by (simp only: get_neighbors_def Let_def if_False)
  show "walkable (replicate 2147483648 [0]) (1, 0)"
    by (simp add: walkable_def)
  show "adjacent (0, 0) (1, 0)"
    by (simp add: adjacent_def)
qed

section \<open>The registry and the neighbour loop\<close>

lemma relax_Cons:
  "relax current goalNode s (neighbor # rest) =
     (if allNodes s (coord_of (store s ! neighbor)) = None \<or>
         node_g (store s ! current) + 1 < node_g (store s ! neighbor)
      then relax current goalNode (admit current goalNode s neighbor) rest
      else relax current goalNode s rest)"
  by (simp add: Let_def admit_def coord_of_def heuristic_def)

text \<open>
  The second disjunct of the admission test never holds: \<open>g\<close> of the node just
  constructed is 0 and \<open>tentative_g\<close> is at least 1. A coordinate that is registered is
  therefore never queued again, whatever \<open>g\<close> the registry holds for it.
\<close>

lemma relax_skips_registered:
  "0 \<le> node_g (store s ! current) \<Longrightarrow> node_g (store s ! n) = 0 \<Longrightarrow>
     allNodes s (coord_of (store s ! n)) = Some p \<Longrightarrow>
     relax current goalNode s (n # rest) = relax current goalNode s rest"
  by (simp only: relax_Cons) simp

lemma admit_simps:
  "length (store (admit current goalNode s n)) = length (store s)"
  "openSet (admit current goalNode s n) = openSet s @ [n]"
  "allNodes (admit current goalNode s n) = (allNodes s)(coord_of (store s ! n) \<mapsto> n)"
  by (simp_all add: admit_def)

lemma admit_store_other: "p \<noteq> n \<Longrightarrow> store (admit current goalNode s n) ! p = store s ! p"
  by (simp add: admit_def)

lemma admit_store_new:
  "n < length (store s) \<Longrightarrow>
     node_g (store (admit current goalNode s n) ! n) = node_g (store s ! current) + 1 \<and>
     node_parent (store (admit current goalNode s n) ! n) = Some current \<and>
     coord_of (store (admit current goalNode s n) ! n) = coord_of (store s ! n)"
  by (simp add: admit_def coord_of_def)

lemma admit_coord:
  "n < length (store s) \<Longrightarrow>
     coord_of (store (admit current goalNode s n) ! p) = coord_of (store s ! p)"
  by (cases "p = n") (simp_all add: admit_store_other admit_store_new)

lemma admit_registered:
  assumes "n < length (store s)" and "allNodes s (coord_of (store s ! n)) = None"
  shows "registered (admit current goalNode s n) p = (p = n \<or> registered s p)"
  using assms
  by (auto simp: registered_def admit_simps admit_coord)

lemma admit_inv:
  assumes inv: "search_inv grid start s"
    and cur: "registered s current"
    and n: "n < length (store s)" "current < n"
    and new: "allNodes s (coord_of (store s ! n)) = None"
    and cell: "walkable grid (coord_of (store s ! n))"
      "adjacent (coord_of (store s ! current)) (coord_of (store s ! n))"
  shows "search_inv grid start (admit current goalNode s n)"
proof -
  let ?s = "admit current goalNode s n"
  have R: "registered ?s p = (p = n \<or> registered s p)" for p
    using n(1) new by (rule admit_registered)
  have C: "coord_of (store ?s ! p) = coord_of (store s ! p)" for p
    using n(1) by (rule admit_coord)
  have notreg: "\<not> registered s n"
    using new by (simp add: registered_def)
  have S: "store ?s ! p = store s ! p" if "registered s p" for p
    using that notreg by (intro admit_store_other) auto
  have N: "node_g (store ?s ! n) = node_g (store s ! current) + 1"
    "node_parent (store ?s ! n) = Some current"
    using admit_store_new [OF n(1)] by simp_all
  from inv have i1: "registered s 0" "coord_of (store s ! 0) = start"
    "node_parent (store s ! 0) = None"
    and i2: "\<forall>p \<in> set (openSet s). registered s p"
    and i3: "\<forall>c p. allNodes s c = Some p \<longrightarrow> p < length (store s) \<and> coord_of (store s ! p) = c"
    and i4: "\<forall>p. registered s p \<longrightarrow> 0 \<le> node_g (store s ! p)"
    and i5: "\<forall>p. registered s p \<and> p \<noteq> 0 \<longrightarrow>
           walkable grid (coord_of (store s ! p)) \<and>
           (\<exists>q. q < p \<and> node_parent (store s ! p) = Some q \<and> registered s q \<and>
                adjacent (coord_of (store s ! q)) (coord_of (store s ! p)))"
    by (simp_all add: search_inv_def)
  have c1: "registered ?s 0" using i1(1) by (simp add: R)
  have c2: "coord_of (store ?s ! 0) = start" using i1(2) by (simp add: C)
  have c3: "node_parent (store ?s ! 0) = None" using i1(1,3) by (simp add: S)
  have c4: "\<forall>p \<in> set (openSet ?s). registered ?s p"
    using i2 by (auto simp: admit_simps R)
  have c5: "\<forall>c p. allNodes ?s c = Some p \<longrightarrow> p < length (store ?s) \<and> coord_of (store ?s ! p) = c"
    using i3 n(1) by (auto simp: admit_simps C split: if_splits)
  have c6: "\<forall>p. registered ?s p \<longrightarrow> 0 \<le> node_g (store ?s ! p)"
  proof (intro allI impI)
    fix p assume "registered ?s p"
    then consider "p = n" | "registered s p" by (auto simp: R)
    then show "0 \<le> node_g (store ?s ! p)"
    proof cases
      case 1
      with i4 cur N(1) show ?thesis by auto
    next
      case 2
      with i4 show ?thesis by (simp add: S)
    qed
  qed
  have c7: "\<forall>p. registered ?s p \<and> p \<noteq> 0 \<longrightarrow>
           walkable grid (coord_of (store ?s ! p)) \<and>
           (\<exists>q. q < p \<and> node_parent (store ?s ! p) = Some q \<and> registered ?s q \<and>
                adjacent (coord_of (store ?s ! q)) (coord_of (store ?s ! p)))"
  proof (intro allI impI)
    fix p assume p: "registered ?s p \<and> p \<noteq> 0"
    then consider "p = n" | "registered s p" by (auto simp: R)
    then show "walkable grid (coord_of (store ?s ! p)) \<and>
           (\<exists>q. q < p \<and> node_parent (store ?s ! p) = Some q \<and> registered ?s q \<and>
                adjacent (coord_of (store ?s ! q)) (coord_of (store ?s ! p)))"
    proof cases
      case 1
      have "current < p \<and> node_parent (store ?s ! p) = Some current \<and> registered ?s current \<and>
            adjacent (coord_of (store ?s ! current)) (coord_of (store ?s ! p))"
        using 1 n(2) N(2) cur cell(2) by (simp add: R C)
      then show ?thesis using 1 cell(1) by (auto simp: C)
    next
      case 2
      with i5 p obtain q where "walkable grid (coord_of (store s ! p))"
        "q < p" "node_parent (store s ! p) = Some q" "registered s q"
        "adjacent (coord_of (store s ! q)) (coord_of (store s ! p))"
        by blast
      then have "walkable grid (coord_of (store ?s ! p))"
        "q < p \<and> node_parent (store ?s ! p) = Some q \<and> registered ?s q \<and>
          adjacent (coord_of (store ?s ! q)) (coord_of (store ?s ! p))"
        using 2 by (simp_all add: R C S)
      then show ?thesis by blast
    qed
  qed
  show ?thesis
    unfolding search_inv_def using c1 c2 c3 c4 c5 c6 c7 by blast
qed

lemma fresh_ok_admit:
  assumes "fresh_ok grid s current (n # ns)"
  shows "fresh_ok grid (admit current goalNode s n) current ns"
proof -
  let ?s = "admit current goalNode s n"
  from assms have n: "n < length (store s)" and d: "distinct ns" "n \<notin> set ns"
    by (simp_all add: fresh_ok_def)
  have C: "coord_of (store ?s ! p) = coord_of (store s ! p)" for p
    using n by (rule admit_coord)
  have "store ?s ! m = store s ! m" if "m \<in> set ns" for m
    using that d(2) by (intro admit_store_other) auto
  with assms d show ?thesis
    by (simp add: fresh_ok_def C admit_simps)
qed

lemma relax_inv:
  assumes "search_inv grid start s" "registered s current" "fresh_ok grid s current ns"
  shows "search_inv grid start (relax current goalNode s ns) \<and>
         dom (allNodes s) \<subseteq> dom (allNodes (relax current goalNode s ns)) \<and>
         (dom (allNodes (relax current goalNode s ns)) = dom (allNodes s) \<longrightarrow>
            openSet (relax current goalNode s ns) = openSet s)"
  using assms
proof (induction ns arbitrary: s)
  case Nil
  then show ?case by simp
next
  case (Cons n ns)
  let ?s = "admit current goalNode s n"
  from Cons.prems(3) have n: "n < length (store s)" "current < n" "node_g (store s ! n) = 0"
    "walkable grid (coord_of (store s ! n))"
    "adjacent (coord_of (store s ! current)) (coord_of (store s ! n))"
    and rest: "fresh_ok grid s current ns"
    by (simp_all add: fresh_ok_def)
  from Cons.prems(1,2) have "0 \<le> node_g (store s ! current)"
    by (simp add: search_inv_def)
  with n(3) have never: "\<not> node_g (store s ! current) + 1 < node_g (store s ! n)"
    by simp
  show ?case
  proof (cases "allNodes s (coord_of (store s ! n)) = None")
    case True
    have inv': "search_inv grid start ?s"
      using Cons.prems(1,2) n(1,2) True n(4,5) by (rule admit_inv)
    have cur': "registered ?s current"
      using Cons.prems(2) by (simp add: admit_registered [OF n(1) True])
    have fresh': "fresh_ok grid ?s current ns"
      using Cons.prems(3) by (rule fresh_ok_admit)
    have eq: "relax current goalNode s (n # ns) = relax current goalNode ?s ns"
      using True by (simp only: relax_Cons) simp
    from True have grow: "dom (allNodes s) \<subset> dom (allNodes ?s)"
      by (auto simp: admit_simps)
    from Cons.IH [OF inv' cur' fresh']
    have ih: "search_inv grid start (relax current goalNode ?s ns)"
      "dom (allNodes ?s) \<subseteq> dom (allNodes (relax current goalNode ?s ns))"
      by simp_all
    from grow ih(2) have "dom (allNodes s) \<subset> dom (allNodes (relax current goalNode ?s ns))"
      by (rule psubset_subset_trans)
    with ih(1) show ?thesis
      unfolding eq by blast
  next
    case False
    with never have eq: "relax current goalNode s (n # ns) = relax current goalNode s ns"
      by (simp only: relax_Cons) simp
    from Cons.IH [OF Cons.prems(1,2) rest] show ?thesis
      unfolding eq .
  qed
qed

lemma relax_covers:
  assumes "search_inv grid start s" "registered s current" "fresh_ok grid s current ns"
  shows "(\<forall>n \<in> set ns. allNodes (relax current goalNode s ns) (coord_of (store s ! n)) \<noteq> None) \<and>
         (\<forall>p. coord_of (store (relax current goalNode s ns) ! p) = coord_of (store s ! p)) \<and>
         set (openSet s) \<subseteq> set (openSet (relax current goalNode s ns)) \<and>
         (\<forall>p. registered (relax current goalNode s ns) p \<longrightarrow>
              registered s p \<or> p \<in> set (openSet (relax current goalNode s ns)))"
  using assms
proof (induction ns arbitrary: s)
  case Nil
  then show ?case by simp
next
  case (Cons n ns)
  let ?s = "admit current goalNode s n"
  from Cons.prems(3) have n: "n < length (store s)" "current < n" "node_g (store s ! n) = 0"
    "walkable grid (coord_of (store s ! n))"
    "adjacent (coord_of (store s ! current)) (coord_of (store s ! n))"
    and rest: "fresh_ok grid s current ns"
    by (simp_all add: fresh_ok_def)
  from Cons.prems(1,2) have "0 \<le> node_g (store s ! current)"
    by (simp add: search_inv_def)
  with n(3) have never: "\<not> node_g (store s ! current) + 1 < node_g (store s ! n)"
    by simp
  show ?case
  proof (cases "allNodes s (coord_of (store s ! n)) = None")
    case True
    have inv': "search_inv grid start ?s"
      using Cons.prems(1,2) n(1,2) True n(4,5) by (rule admit_inv)
    have cur': "registered ?s current"
      using Cons.prems(2) by (simp add: admit_registered [OF n(1) True])
    have fresh': "fresh_ok grid ?s current ns"
      using Cons.prems(3) by (rule fresh_ok_admit)
    have eq: "relax current goalNode s (n # ns) = relax current goalNode ?s ns"
      using True by (simp only: relax_Cons) simp
    have C: "coord_of (store ?s ! p) = coord_of (store s ! p)" for p
      using n(1) by (rule admit_coord)
    from Cons.IH [OF inv' cur' fresh']
    have ih1: "\<forall>m \<in> set ns. allNodes (relax current goalNode ?s ns) (coord_of (store s ! m)) \<noteq> None"
      and ih2: "\<forall>p. coord_of (store (relax current goalNode ?s ns) ! p) = coord_of (store s ! p)"
      and ih3: "set (openSet ?s) \<subseteq> set (openSet (relax current goalNode ?s ns))"
      and ih4: "\<forall>p. registered (relax current goalNode ?s ns) p \<longrightarrow>
              registered ?s p \<or> p \<in> set (openSet (relax current goalNode ?s ns))"
      by (simp_all add: C)
    from relax_inv [OF inv' cur' fresh', of goalNode]
    have "dom (allNodes ?s) \<subseteq> dom (allNodes (relax current goalNode ?s ns))" by simp
    moreover have "coord_of (store s ! n) \<in> dom (allNodes ?s)"
      by (simp add: admit_simps)
    ultimately have here: "allNodes (relax current goalNode ?s ns) (coord_of (store s ! n)) \<noteq> None"
      by blast
    have open': "set (openSet s) \<subseteq> set (openSet (relax current goalNode ?s ns))"
      using ih3 by (auto simp: admit_simps)
    have reg': "\<forall>p. registered (relax current goalNode ?s ns) p \<longrightarrow>
              registered s p \<or> p \<in> set (openSet (relax current goalNode ?s ns))"
    proof (intro allI impI)
      fix p assume "registered (relax current goalNode ?s ns) p"
      with ih4 have "registered ?s p \<or> p \<in> set (openSet (relax current goalNode ?s ns))"
        by blast
      moreover have "n \<in> set (openSet (relax current goalNode ?s ns))"
        using ih3 by (auto simp: admit_simps)
      ultimately show "registered s p \<or> p \<in> set (openSet (relax current goalNode ?s ns))"
        by (auto simp: admit_registered [OF n(1) True])
    qed
    from ih1 ih2 here open' reg' show ?thesis
      unfolding eq by simp
  next
    case False
    with never have eq: "relax current goalNode s (n # ns) = relax current goalNode s ns"
      by (simp only: relax_Cons) simp
    from relax_inv [OF Cons.prems(1,2) rest, of goalNode]
    have "dom (allNodes s) \<subseteq> dom (allNodes (relax current goalNode s ns))" by simp
    with False have "allNodes (relax current goalNode s ns) (coord_of (store s ! n)) \<noteq> None"
      by blast
    with Cons.IH [OF Cons.prems(1,2) rest] show ?thesis
      unfolding eq by simp
  qed
qed

section \<open>Path reconstruction\<close>

lemma registered_inj:
  "registered s p \<Longrightarrow> registered s q \<Longrightarrow> coord_of (store s ! p) = coord_of (store s ! q) \<Longrightarrow> p = q"
  by (simp add: registered_def)

lemma reconstruct_walk_Some:
  "reconstruct_walk st (Some p) path =
     reconstruct_walk st (node_parent (st ! p)) (path @ [coord_of (st ! p)])"
  by (subst reconstruct_walk.simps) (simp add: coord_of_def)

lemma reconstruct_walk_None: "reconstruct_walk st None path = Some path"
  by (subst reconstruct_walk.simps) simp

lemma reconstruct_walk_registered:
  assumes inv: "search_inv grid start s"
  shows "registered s p \<Longrightarrow>
     \<exists>cs. (\<forall>acc. reconstruct_walk (store s) (Some p) acc = Some (acc @ cs)) \<and>
          chain_ok grid start s p cs"
proof (induction p rule: less_induct)
  case (less p)
  show ?case
  proof (cases "p = 0")
    case True
    from inv have "coord_of (store s ! 0) = start" "node_parent (store s ! 0) = None"
      by (simp_all add: search_inv_def)
    then have "\<forall>acc. reconstruct_walk (store s) (Some p) acc = Some (acc @ [start])"
      using True by (simp add: reconstruct_walk_Some reconstruct_walk_None)
    moreover have "chain_ok grid start s p [start]"
      using True less.prems \<open>coord_of (store s ! 0) = start\<close>
      by (auto simp: chain_ok_def)
    ultimately show ?thesis by blast
  next
    case False
    with inv less.prems obtain q where q: "q < p" "node_parent (store s ! p) = Some q"
      "registered s q" "adjacent (coord_of (store s ! q)) (coord_of (store s ! p))"
      and w: "walkable grid (coord_of (store s ! p))"
      unfolding search_inv_def by blast
    from less.IH [OF q(1) q(3)] obtain cs where
      cs: "\<And>acc. reconstruct_walk (store s) (Some q) acc = Some (acc @ cs)"
      and ok: "chain_ok grid start s q cs"
      by blast
    let ?c = "coord_of (store s ! p)"
    have walk: "\<forall>acc. reconstruct_walk (store s) (Some p) acc = Some (acc @ (?c # cs))"
      by (simp add: reconstruct_walk_Some [of _ p] q(2) cs)
    from ok have ne: "cs \<noteq> []" and hd: "hd cs = coord_of (store s ! q)"
      and last: "last cs = start" and succ: "successively (\<lambda>a b. adjacent b a) cs"
      and walkb: "\<forall>c \<in> set (butlast cs). walkable grid c" and dist: "distinct cs"
      and reg: "\<forall>c \<in> set cs. \<exists>r. r \<le> q \<and> registered s r \<and> coord_of (store s ! r) = c"
      by (simp_all add: chain_ok_def)
    have notin: "?c \<notin> set cs"
    proof
      assume "?c \<in> set cs"
      with reg obtain r where r: "r \<le> q" "registered s r" "coord_of (store s ! r) = ?c"
        by blast
      from registered_inj [OF r(2) less.prems r(3)] r(1) q(1) show False by simp
    qed
    have reg': "\<forall>c \<in> set (?c # cs). \<exists>r. r \<le> p \<and> registered s r \<and> coord_of (store s ! r) = c"
    proof
      fix c assume "c \<in> set (?c # cs)"
      then consider "c = ?c" | "c \<in> set cs" by auto
      then show "\<exists>r. r \<le> p \<and> registered s r \<and> coord_of (store s ! r) = c"
      proof cases
        case 1
        with less.prems show ?thesis by auto
      next
        case 2
        with reg obtain r where "r \<le> q" "registered s r" "coord_of (store s ! r) = c" by blast
        with q(1) show ?thesis by (intro exI [of _ r]) simp
      qed
    qed
    have "chain_ok grid start s p (?c # cs)"
      unfolding chain_ok_def
      using ne hd last succ walkb dist notin reg' q(4) w
      by (simp add: successively_Cons)
    with walk show ?thesis by blast
  qed
qed

lemma reconstruct_path_registered:
  assumes "search_inv grid start s" "registered s p"
  shows "\<exists>path. reconstruct_path (store s) (Some p) = Some path \<and>
           path_ok grid start (coord_of (store s ! p)) path"
proof -
  from reconstruct_walk_registered [OF assms] obtain cs where
    cs: "reconstruct_walk (store s) (Some p) [] = Some ([] @ cs)"
    and ok: "chain_ok grid start s p cs"
    by blast
  from cs have "reconstruct_path (store s) (Some p) = Some (rev cs)"
    by (simp add: reconstruct_path_def)
  moreover have "set (tl (rev cs)) = set (butlast cs)"
    by (metis butlast_rev rev_rev_ident set_rev)
  with ok have "path_ok grid start (coord_of (store s ! p)) (rev cs)"
    by (simp add: chain_ok_def path_ok_def hd_rev last_rev)
  ultimately show ?thesis by blast
qed

section \<open>The main loop\<close>

lemma wf_search_order: "wf search_order"
  unfolding search_order_def by (intro wf_inv_image wf_lex_prod wf_finite_psubset wf_less_than)

lemma search_inv_init: "search_inv grid start (a_star_init start goal)"
proof -
  let ?s = "a_star_init start goal"
  have reg: "registered ?s p = (p = 0)" for p
    by (cases p) (auto simp: registered_def a_star_init_def coord_of_def new_Node_def)
  show ?thesis
    unfolding search_inv_def reg
    by (auto simp: a_star_init_def coord_of_def new_Node_def split: if_splits)
qed

lemma search_inv_extend:
  assumes inv: "search_inv grid start s" and sub: "set q \<subseteq> set (openSet s)"
  shows "search_inv grid start (s\<lparr>openSet := q, store := store s @ fresh\<rparr>)"
proof -
  let ?s = "s\<lparr>openSet := q, store := store s @ fresh\<rparr>"
  from inv have i3: "\<forall>c p. allNodes s c = Some p \<longrightarrow> p < length (store s) \<and> coord_of (store s ! p) = c"
    by (simp add: search_inv_def)
  have R: "registered ?s p = registered s p" for p
  proof
    assume "registered ?s p"
    then have a: "allNodes s (coord_of ((store s @ fresh) ! p)) = Some p"
      by (simp add: registered_def)
    with i3 have "p < length (store s)" by blast
    with a show "registered s p" by (simp add: registered_def nth_append)
  next
    assume "registered s p"
    then show "registered ?s p" by (simp add: registered_def nth_append)
  qed
  have S: "store ?s ! p = store s ! p" if "registered s p" for p
    using that by (simp add: registered_def nth_append)
  from inv have i1: "registered s 0" by (simp add: search_inv_def)
  from inv have i5: "\<forall>p. registered s p \<and> p \<noteq> 0 \<longrightarrow>
           walkable grid (coord_of (store s ! p)) \<and>
           (\<exists>q. q < p \<and> node_parent (store s ! p) = Some q \<and> registered s q \<and>
                adjacent (coord_of (store s ! q)) (coord_of (store s ! p)))"
    by (simp add: search_inv_def)
  have c7: "\<forall>p. registered ?s p \<and> p \<noteq> 0 \<longrightarrow>
           walkable grid (coord_of (store ?s ! p)) \<and>
           (\<exists>q. q < p \<and> node_parent (store ?s ! p) = Some q \<and> registered ?s q \<and>
                adjacent (coord_of (store ?s ! q)) (coord_of (store ?s ! p)))"
  proof (intro allI impI)
    fix p assume p: "registered ?s p \<and> p \<noteq> 0"
    then have rp: "registered s p" by (simp add: R)
    with i5 p obtain r where r: "walkable grid (coord_of (store s ! p))"
      "r < p" "node_parent (store s ! p) = Some r" "registered s r"
      "adjacent (coord_of (store s ! r)) (coord_of (store s ! p))"
      by blast
    have "walkable grid (coord_of (store ?s ! p))"
      using r(1) by (simp only: S [OF rp])
    moreover have "r < p \<and> node_parent (store ?s ! p) = Some r \<and> registered ?s r \<and>
        adjacent (coord_of (store ?s ! r)) (coord_of (store ?s ! p))"
      using r by (simp only: S [OF rp] S [OF r(4)] R)
    ultimately show "walkable grid (coord_of (store ?s ! p)) \<and>
           (\<exists>q. q < p \<and> node_parent (store ?s ! p) = Some q \<and> registered ?s q \<and>
                adjacent (coord_of (store ?s ! q)) (coord_of (store ?s ! p)))"
      by blast
  qed
  have c1: "registered ?s 0 \<and> coord_of (store ?s ! 0) = start \<and> node_parent (store ?s ! 0) = None"
    using inv by (simp only: R S [OF i1]) (simp add: search_inv_def)
  have c4: "\<forall>p \<in> set (openSet ?s). registered ?s p"
    using inv sub by (auto simp: R search_inv_def)
  have c5: "\<forall>c p. allNodes ?s c = Some p \<longrightarrow> p < length (store ?s) \<and> coord_of (store ?s ! p) = c"
  proof (intro allI impI)
    fix c p assume "allNodes ?s c = Some p"
    then have "allNodes s c = Some p" by simp
    with i3 have "p < length (store s)" "coord_of (store s ! p) = c" by blast+
    then show "p < length (store ?s) \<and> coord_of (store ?s ! p) = c"
      by (simp add: nth_append)
  qed
  have c6: "\<forall>p. registered ?s p \<longrightarrow> 0 \<le> node_g (store ?s ! p)"
  proof (intro allI impI)
    fix p assume "registered ?s p"
    then have rp: "registered s p" by (simp add: R)
    with inv have "0 \<le> node_g (store s ! p)" by (simp add: search_inv_def)
    then show "0 \<le> node_g (store ?s ! p)" by (simp only: S [OF rp])
  qed
  show ?thesis
    unfolding search_inv_def using c1 c4 c5 c6 c7 by blast
qed

lemma top_in_openSet: "q \<noteq> [] \<Longrightarrow> top_pq addr q \<in> set q"
  by (simp add: top_pq_def arg_min_list_in)

lemma length_pop:
  assumes "q \<noteq> []"
  shows "length (pop_pq addr q) < length q"
proof -
  from assms have "top_pq addr q \<in> set q" by (rule top_in_openSet)
  then have "length (pop_pq addr q) = length q - 1"
    by (simp add: pop_pq_def length_remove1)
  with assms show ?thesis by (cases q) simp_all
qed

lemma set_pop: "set (pop_pq addr q) \<subseteq> set q"
  by (simp add: pop_pq_def set_remove1_subset)

lemma fresh_ok_appended:
  assumes reg: "registered s current"
    and nb: "get_neighbors (store s ! current) grid = Inr fresh"
  shows "fresh_ok grid (s\<lparr>openSet := q, store := store s @ fresh\<rparr>) current
           [length (store s) ..< length (store s) + length fresh]"
proof -
  from reg have cur: "current < length (store s)" by (simp add: registered_def)
  have "n < length (store s @ fresh) \<and> current < n \<and> node_g ((store s @ fresh) ! n) = 0 \<and>
        walkable grid (coord_of ((store s @ fresh) ! n)) \<and>
        adjacent (coord_of ((store s @ fresh) ! current)) (coord_of ((store s @ fresh) ! n))"
    if "n \<in> set [length (store s) ..< length (store s) + length fresh]" for n
  proof -
    from that have n: "length (store s) \<le> n" "n - length (store s) < length fresh"
      by auto
    then have "(store s @ fresh) ! n = fresh ! (n - length (store s))"
      by (simp add: nth_append)
    moreover from n(2) have "fresh ! (n - length (store s)) \<in> set fresh" by (rule nth_mem)
    moreover have "(store s @ fresh) ! current = store s ! current"
      using cur by (simp add: nth_append)
    ultimately show ?thesis
      using get_neighbors_sound [OF nb, of "fresh ! (n - length (store s))"] cur n
      by auto
  qed
  then show ?thesis
    by (simp add: fresh_ok_def)
qed

lemma registered_extend:
  assumes "search_inv grid start s"
  shows "registered (s\<lparr>openSet := q, store := store s @ fresh\<rparr>) p = registered s p"
proof
  assume "registered (s\<lparr>openSet := q, store := store s @ fresh\<rparr>) p"
  then have a: "allNodes s (coord_of ((store s @ fresh) ! p)) = Some p"
    by (simp add: registered_def)
  with assms have "p < length (store s)"
    unfolding search_inv_def by blast
  with a show "registered s p" by (simp add: registered_def nth_append)
next
  assume "registered s p"
  then show "registered (s\<lparr>openSet := q, store := store s @ fresh\<rparr>) p"
    by (simp add: registered_def nth_append)
qed

lemma registry_entry:
  assumes "search_inv grid start s" "allNodes s c = Some p"
  shows "registered s p \<and> coord_of (store s ! p) = c"
proof -
  from assms have "p < length (store s)" "coord_of (store s ! p) = c"
    unfolding search_inv_def by blast+
  with assms(2) show ?thesis by (simp add: registered_def)
qed

lemma expanded_closed_step:
  assumes inv: "search_inv grid start s" and ne: "openSet s \<noteq> []"
    and cl: "expanded_closed grid goal s"
    and grid: "rectangular grid" "int_sized grid"
    and nb: "get_neighbors (store s ! top_pq addr (openSet s)) grid = Inr fresh"
    and notgoal: "coord_of (store s ! top_pq addr (openSet s)) \<noteq> goal"
  shows "expanded_closed grid goal
     (relax (top_pq addr (openSet s)) goalNode
        (s\<lparr>openSet := pop_pq addr (openSet s), store := store s @ fresh\<rparr>)
        [length (store s) ..< length (store s) + length fresh])"
proof -
  let ?cur = "top_pq addr (openSet s)"
  let ?q = "pop_pq addr (openSet s)"
  let ?s2 = "s\<lparr>openSet := ?q, store := store s @ fresh\<rparr>"
  let ?ns = "[length (store s) ..< length (store s) + length fresh]"
  let ?s' = "relax ?cur goalNode ?s2 ?ns"
  from ne have "?cur \<in> set (openSet s)" by (rule top_in_openSet)
  with inv have reg: "registered s ?cur" by (simp add: search_inv_def)
  have inv2: "search_inv grid start ?s2"
    using inv set_pop by (rule search_inv_extend)
  have reg2: "registered ?s2 ?cur"
    using reg by (simp add: registered_def nth_append)
  have fresh: "fresh_ok grid ?s2 ?cur ?ns"
    using reg nb by (rule fresh_ok_appended)
  from relax_covers [OF inv2 reg2 fresh, of goalNode]
  have cov: "\<forall>n \<in> set ?ns. allNodes ?s' (coord_of (store ?s2 ! n)) \<noteq> None"
    and crd: "\<forall>p. coord_of (store ?s' ! p) = coord_of (store ?s2 ! p)"
    and opn: "set ?q \<subseteq> set (openSet ?s')"
    and rgd: "\<forall>p. registered ?s' p \<longrightarrow> registered ?s2 p \<or> p \<in> set (openSet ?s')"
    by simp_all
  from relax_inv [OF inv2 reg2 fresh, of goalNode]
  have sub: "dom (allNodes s) \<subseteq> dom (allNodes ?s')" by simp
  show ?thesis
    unfolding expanded_closed_def
  proof (intro allI impI)
    fix p assume p: "registered ?s' p \<and> p \<notin> set (openSet ?s')"
    with rgd have "registered ?s2 p" by blast
    then have rp: "registered s p" by (simp only: registered_extend [OF inv])
    then have "p < length (store s)" by (simp add: registered_def)
    with crd have cp: "coord_of (store ?s' ! p) = coord_of (store s ! p)"
      by (simp add: nth_append)
    show "coord_of (store ?s' ! p) \<noteq> goal \<and>
          (\<forall>c. move grid (coord_of (store ?s' ! p)) c \<longrightarrow> allNodes ?s' c \<noteq> None)"
    proof (cases "p = ?cur")
      case True
      have "allNodes ?s' c \<noteq> None" if "move grid (coord_of (store s ! ?cur)) c" for c
      proof -
        from get_neighbors_complete [OF grid that] nb have "c \<in> coord_of ` set fresh"
          by simp
        then obtain i where i: "i < length fresh" "coord_of (fresh ! i) = c"
          by (auto simp: in_set_conv_nth)
        let ?n = "length (store s) + i"
        from i(1) have "?n \<in> set ?ns" by simp
        moreover have "store ?s2 ! ?n = fresh ! i" by (simp add: nth_append)
        ultimately show ?thesis using cov i(2) by metis
      qed
      with True notgoal have "coord_of (store s ! p) \<noteq> goal \<and>
          (\<forall>c. move grid (coord_of (store s ! p)) c \<longrightarrow> allNodes ?s' c \<noteq> None)"
        by simp
      then show ?thesis unfolding cp .
    next
      case False
      have "p \<notin> set (openSet s)"
      proof
        assume "p \<in> set (openSet s)"
        with False have "p \<in> set ?q" by (simp add: pop_pq_def)
        with opn p show False by blast
      qed
      with cl rp have old: "coord_of (store s ! p) \<noteq> goal"
        "\<forall>c. move grid (coord_of (store s ! p)) c \<longrightarrow> allNodes s c \<noteq> None"
        unfolding expanded_closed_def by blast+
      from old(2) sub have "\<forall>c. move grid (coord_of (store s ! p)) c \<longrightarrow> allNodes ?s' c \<noteq> None"
        by blast
      with old(1) have "coord_of (store s ! p) \<noteq> goal \<and>
          (\<forall>c. move grid (coord_of (store s ! p)) c \<longrightarrow> allNodes ?s' c \<noteq> None)"
        by simp
      then show ?thesis unfolding cp .
    qed
  qed
qed

lemma closed_registry_holds_reachable:
  assumes inv: "search_inv grid start s" and cl: "expanded_closed grid goal s"
    and emp: "openSet s = []" and path: "(start, c) \<in> {(p, q). move grid p q}\<^sup>*"
  shows "allNodes s c \<noteq> None \<and> c \<noteq> goal"
  using path
proof (induction rule: rtrancl_induct)
  case base
  from inv have "registered s 0" "coord_of (store s ! 0) = start"
    by (simp_all add: search_inv_def)
  with cl emp show ?case
    unfolding expanded_closed_def registered_def by auto
next
  case (step b c)
  from step.hyps(2) have mv: "move grid b c" by simp
  from step.IH obtain p where p: "allNodes s b = Some p" by auto
  from registry_entry [OF inv p] have rp: "registered s p" "coord_of (store s ! p) = b"
    by simp_all
  from emp have "p \<notin> set (openSet s)" by simp
  with cl rp(1) have "\<forall>c. move grid (coord_of (store s ! p)) c \<longrightarrow> allNodes s c \<noteq> None"
    unfolding expanded_closed_def by blast
  with mv rp(2) have c: "allNodes s c \<noteq> None" by blast
  then obtain q where q: "allNodes s c = Some q" by auto
  from registry_entry [OF inv q] have rq: "registered s q" "coord_of (store s ! q) = c"
    by simp_all
  from emp have "q \<notin> set (openSet s)" by simp
  with cl rq(1) have "coord_of (store s ! q) \<noteq> goal"
    unfolding expanded_closed_def by blast
  with c rq(2) show ?case by simp
qed

lemma a_star_step_cases:
  assumes inv: "search_inv grid start s" and ne: "openSet s \<noteq> []"
  shows "(\<exists>r. a_star_step addr grid goalNode s = Some (Return r) \<and>
              result_ok grid start (coord_of goalNode) r \<and> r \<noteq> Inr []) \<or>
         (\<exists>s'. a_star_step addr grid goalNode s = Some (Continue s') \<and>
               search_inv grid start s' \<and> (s', s) \<in> search_order \<and>
               (expanded_closed grid (coord_of goalNode) s \<and> rectangular grid \<and> int_sized grid \<longrightarrow>
                  expanded_closed grid (coord_of goalNode) s'))"
proof -
  let ?cur = "top_pq addr (openSet s)"
  let ?q = "pop_pq addr (openSet s)"
  from ne have "?cur \<in> set (openSet s)" by (rule top_in_openSet)
  with inv have reg: "registered s ?cur" by (simp add: search_inv_def)
  show ?thesis
  proof (cases "node_x (store s ! ?cur) = node_x goalNode \<and> node_y (store s ! ?cur) = node_y goalNode")
    case True
    then have goal: "coord_of (store s ! ?cur) = coord_of goalNode"
      by (simp add: coord_of_def)
    from reconstruct_path_registered [OF inv reg] obtain path where
      path: "reconstruct_path (store s) (Some ?cur) = Some path"
        "path_ok grid start (coord_of goalNode) path"
      unfolding goal by blast
    from True path(1) have "a_star_step addr grid goalNode s = Some (Return (Inr path))"
      by (simp add: a_star_step_def Let_def)
    moreover from path(2) have "result_ok grid start (coord_of goalNode) (Inr path)"
      by (simp add: result_ok_def)
    moreover from path(2) have "Inr path \<noteq> (Inr [] :: error + coord list)"
      by (simp add: path_ok_def)
    ultimately show ?thesis by blast
  next
    case False
    then have notgoal: "coord_of (store s ! ?cur) \<noteq> coord_of goalNode"
      by (simp add: coord_of_def)
    show ?thesis
    proof (cases "get_neighbors (store s ! ?cur) grid")
      case (Inl e)
      with False have "a_star_step addr grid goalNode s = Some (Return (Inl e))"
        by (simp add: a_star_step_def Let_def)
      moreover from Inl have "\<not> rectangular grid"
        using get_neighbors_rectangular [of grid "store s ! ?cur"] by auto
      then have "result_ok grid start (coord_of goalNode) (Inl e)"
        by (simp add: result_ok_def)
      ultimately show ?thesis by blast
    next
      case (Inr fresh)
      let ?s2 = "s\<lparr>openSet := ?q, store := store s @ fresh\<rparr>"
      let ?ns = "[length (store s) ..< length (store s) + length fresh]"
      let ?s' = "relax ?cur goalNode ?s2 ?ns"
      from False Inr have step: "a_star_step addr grid goalNode s = Some (Continue ?s')"
        by (simp add: a_star_step_def Let_def)
      have inv2: "search_inv grid start ?s2"
        using inv set_pop by (rule search_inv_extend)
      have reg2: "registered ?s2 ?cur"
        using reg by (simp add: registered_def nth_append)
      have fresh: "fresh_ok grid ?s2 ?cur ?ns"
        using reg Inr by (rule fresh_ok_appended)
      from relax_inv [OF inv2 reg2 fresh, of goalNode]
      have inv': "search_inv grid start ?s'"
        and sub: "dom (allNodes s) \<subseteq> dom (allNodes ?s')"
        and same: "dom (allNodes ?s') = dom (allNodes s) \<Longrightarrow> openSet ?s' = ?q"
        by simp_all
      have "(?s', s) \<in> search_order"
      proof (cases "dom (allNodes ?s') = dom (allNodes s)")
        case True
        with same have "openSet ?s' = ?q" by simp
        with length_pop [OF ne, of addr] True show ?thesis
          by (simp add: search_order_def)
      next
        case False
        with sub have "- dom (allNodes ?s') \<subset> - dom (allNodes s)" by blast
        then show ?thesis by (simp add: search_order_def)
      qed
      moreover have "expanded_closed grid (coord_of goalNode) ?s'"
        if "expanded_closed grid (coord_of goalNode) s" "rectangular grid" "int_sized grid"
        using inv ne that Inr notgoal by (rule expanded_closed_step)
      ultimately show ?thesis using step inv' by blast
    qed
  qed
qed

lemma a_star_loop_result:
  "search_inv grid start s \<Longrightarrow>
     \<exists>r. a_star_loop addr grid goalNode s = Some r \<and> result_ok grid start (coord_of goalNode) r"
proof (induction s rule: wf_induct_rule [OF wf_search_order])
  case (1 s)
  show ?case
  proof (cases "openSet s = []")
    case True
    then have "a_star_loop addr grid goalNode s = Some (Inr [])"
      by (subst a_star_loop.simps) simp
    then show ?thesis by (simp add: result_ok_def)
  next
    case False
    from a_star_step_cases [OF "1.prems" False, of addr goalNode]
    show ?thesis
    proof (elim disjE exE conjE)
      fix r
      assume "a_star_step addr grid goalNode s = Some (Return r)"
        and ok: "result_ok grid start (coord_of goalNode) r"
      with False have "a_star_loop addr grid goalNode s = Some r"
        by (subst a_star_loop.simps) simp
      with ok show ?thesis by blast
    next
      fix s'
      assume step: "a_star_step addr grid goalNode s = Some (Continue s')"
        and inv': "search_inv grid start s'" and less: "(s', s) \<in> search_order"
      from step False have "a_star_loop addr grid goalNode s = a_star_loop addr grid goalNode s'"
        by (subst a_star_loop.simps) simp
      with "1.IH" [OF less inv'] show ?thesis by simp
    qed
  qed
qed

lemma a_star_result:
  "\<exists>r. a_star addr grid start goal = Some r \<and> result_ok grid start goal r"
proof -
  have "search_inv grid start (a_star_init start goal)"
    by (rule search_inv_init)
  then have "\<exists>r. a_star_loop addr grid (new_Node (fst goal) (snd goal)) (a_star_init start goal) = Some r \<and>
      result_ok grid start (coord_of (new_Node (fst goal) (snd goal))) r"
    by (rule a_star_loop_result)
  then show ?thesis
    by (simp add: a_star_def coord_of_def new_Node_def)
qed

lemma a_star_loop_finds:
  assumes grid: "rectangular grid" "int_sized grid"
    and reach: "reachable grid start (coord_of goalNode)"
  shows "search_inv grid start s \<Longrightarrow> expanded_closed grid (coord_of goalNode) s \<Longrightarrow>
     a_star_loop addr grid goalNode s \<noteq> Some (Inr [])"
proof (induction s rule: wf_induct_rule [OF wf_search_order])
  case (1 s)
  show ?case
  proof (cases "openSet s = []")
    case True
    from reach have "(start, coord_of goalNode) \<in> {(p, q). move grid p q}\<^sup>*"
      by (simp add: reachable_def)
    from closed_registry_holds_reachable [OF "1.prems" True this] show ?thesis
      by simp
  next
    case False
    from a_star_step_cases [OF "1.prems"(1) False, of addr goalNode]
    show ?thesis
    proof (elim disjE exE conjE)
      fix r
      assume "a_star_step addr grid goalNode s = Some (Return r)" and "r \<noteq> Inr []"
      with False show ?thesis
        by (subst a_star_loop.simps) simp
    next
      fix s'
      assume step: "a_star_step addr grid goalNode s = Some (Continue s')"
        and inv': "search_inv grid start s'" and less: "(s', s) \<in> search_order"
        and cl: "expanded_closed grid (coord_of goalNode) s \<and> rectangular grid \<and> int_sized grid \<longrightarrow>
                  expanded_closed grid (coord_of goalNode) s'"
      from cl "1.prems"(2) grid have cl': "expanded_closed grid (coord_of goalNode) s'"
        by simp
      from step False have "a_star_loop addr grid goalNode s = a_star_loop addr grid goalNode s'"
        by (subst a_star_loop.simps) simp
      with "1.IH" [OF less inv' cl'] show ?thesis by simp
    qed
  qed
qed

lemma expanded_closed_init: "expanded_closed grid goal' (a_star_init start goal)"
proof -
  have "registered (a_star_init start goal) p = (p = 0)" for p
    by (cases p) (auto simp: registered_def a_star_init_def coord_of_def new_Node_def)
  then show ?thesis
    by (simp add: expanded_closed_def a_star_init_def)
qed

lemma a_star_finds_reachable:
  assumes "rectangular grid" "int_sized grid" "reachable grid start goal"
  shows "a_star addr grid start goal \<noteq> Some (Inr [])"
proof -
  have g: "coord_of (new_Node (fst goal) (snd goal)) = goal"
    by (simp add: coord_of_def new_Node_def)
  from assms(3) have "reachable grid start (coord_of (new_Node (fst goal) (snd goal)))"
    by (simp only: g)
  from a_star_loop_finds [OF assms(1,2) this search_inv_init expanded_closed_init]
  show ?thesis
    by (simp add: a_star_def)
qed

lemma successively_move:
  "successively adjacent path \<Longrightarrow> \<forall>c \<in> set (tl path). walkable grid c \<Longrightarrow>
     successively (move grid) path"
  by (induction path rule: induct_list012) (simp_all add: move_def)

lemma path_ok_complete: "path_ok grid start goal path \<Longrightarrow> complete_path grid start goal path"
  by (simp add: path_ok_def complete_path_def successively_move)

lemma successively_move_reachable:
  "successively (move grid) path \<Longrightarrow> path \<noteq> [] \<Longrightarrow>
     (hd path, last path) \<in> {(p, q). move grid p q}\<^sup>*"
proof (induction path rule: induct_list012)
  case 1
  then show ?case by simp
next
  case (2 x)
  then show ?case by simp
next
  case (3 x y zs)
  then have "(x, y) \<in> {(p, q). move grid p q}" and "(y, last (y # zs)) \<in> {(p, q). move grid p q}\<^sup>*"
    by simp_all
  then show ?case by (simp add: converse_rtrancl_into_rtrancl)
qed

lemma complete_path_reachable: "complete_path grid start goal path \<Longrightarrow> reachable grid start goal"
  using successively_move_reachable [of grid path]
  by (auto simp: complete_path_def reachable_def)

text \<open>
  \<open>a_star_steps\<close> runs the first passes of the same loop: what it returns the loop
  returns, and from a state it reaches the loop goes on as from there.
\<close>

lemma a_star_steps_Return:
  "a_star_steps n addr grid goalNode s = Some (Return r) \<Longrightarrow>
     a_star_loop addr grid goalNode s = Some r"
proof (induction n arbitrary: s)
  case 0
  then show ?case by simp
next
  case (Suc n)
  show ?case
  proof (cases "openSet s = []")
    case True
    with Suc.prems show ?thesis by (subst a_star_loop.simps) simp
  next
    case False
    with Suc.prems show ?thesis
      by (subst a_star_loop.simps)
         (auto split: option.splits step_result.splits dest: Suc.IH)
  qed
qed

lemma a_star_steps_Continue:
  "a_star_steps n addr grid goalNode s = Some (Continue s') \<Longrightarrow>
     a_star_loop addr grid goalNode s = a_star_loop addr grid goalNode s'"
proof (induction n arbitrary: s)
  case 0
  then show ?case by simp
next
  case (Suc n)
  show ?case
  proof (cases "openSet s = []")
    case True
    with Suc.prems show ?thesis by simp
  next
    case False
    with Suc.prems show ?thesis
      by (subst a_star_loop.simps)
         (auto split: option.splits step_result.splits dest: Suc.IH)
  qed
qed

section \<open>Termination\<close>

text \<open>
  Claim C4. For every grid, start and goal, \<open>a_star\<close> returns: the main loop and the loop
  of \<^verbatim>\<open>reconstruct_path\<close> both exit. A coordinate enters the registry at most once, so
  each pass either registers a new coordinate or shortens the open set. (The value
  returned is a path, the empty sequence, or the out-of-range access at which a C++ run
  leaves defined behaviour.)
\<close>

theorem a_star_terminates: "\<exists>r. a_star addr grid start goal = Some r"
  using a_star_result [of addr grid start goal] by blast

section \<open>Shape of the returned path\<close>

text \<open>
  Claim C5. As stated the claim fails when the start is not a walkable cell: the start
  is never checked against the grid, and it is the first coordinate of every returned
  path. Amended: for every grid that has at least one row and whose rows all have one
  length, \<open>a_star\<close> returns a sequence, and whenever that sequence is not empty it begins
  at the start and ends at the goal, every consecutive pair of its coordinates is
  orthogonally adjacent, every coordinate after the first is a walkable cell, and no
  coordinate occurs twice.
\<close>

theorem a_star_path_shape:
  assumes "rectangular grid"
  shows "\<exists>path. a_star addr grid start goal = Some (Inr path) \<and>
           (path \<noteq> [] \<longrightarrow>
              hd path = start \<and> last path = goal \<and> successively adjacent path \<and>
              (\<forall>c \<in> set (tl path). walkable grid c) \<and> distinct path)"
proof -
  from a_star_result [of addr grid start goal] obtain r where
    r: "a_star addr grid start goal = Some r" "result_ok grid start goal r"
    by blast
  from r(2) assms obtain path where path: "r = Inr path" "path = [] \<or> path_ok grid start goal path"
    by (cases r) (simp_all add: result_ok_def)
  from path(2) have "path \<noteq> [] \<longrightarrow>
      hd path = start \<and> last path = goal \<and> successively adjacent path \<and>
      (\<forall>c \<in> set (tl path). walkable grid c) \<and> distinct path"
    by (auto simp: path_ok_def)
  with r(1) path(1) show ?thesis by blast
qed

theorem a_star_path_shape_witness:
  "rectangular [[0, 0, 0], [0, 1, 0], [0, 0, 0]] \<and>
   a_star ascending [[0, 0, 0], [0, 1, 0], [0, 0, 0]] (0, 0) (2, 2)
      = Some (Inr [(0, 0), (1, 0), (2, 0), (2, 1), (2, 2)]) \<and>
   [(0, 0), (1, 0), (2, 0), (2, 1), (2, 2) :: coord] \<noteq> [] \<and>
   hd [(0, 0), (1, 0), (2, 0), (2, 1), (2, 2) :: coord] = (0, 0) \<and>
   last [(0, 0), (1, 0), (2, 0), (2, 1), (2, 2) :: coord] = (2, 2) \<and>
   successively adjacent [(0, 0), (1, 0), (2, 0), (2, 1), (2, 2)] \<and>
   walkable [[0, 0, 0], [0, 1, 0], [0, 0, 0]] (1, 0) \<and>
   walkable [[0, 0, 0], [0, 1, 0], [0, 0, 0]] (2, 0) \<and>
   walkable [[0, 0, 0], [0, 1, 0], [0, 0, 0]] (2, 1) \<and>
   walkable [[0, 0, 0], [0, 1, 0], [0, 0, 0]] (2, 2) \<and>
   distinct [(0, 0), (1, 0), (2, 0), (2, 1), (2, 2) :: coord]"
proof -
  have run: "a_star ascending [[0, 0, 0], [0, 1, 0], [0, 0, 0]] (0, 0) (2, 2)
      = Some (Inr [(0, 0), (1, 0), (2, 0), (2, 1), (2, 2)])"
    by code_simp
  from a_star_path_shape [OF rect_ex3, of ascending "(0, 0)" "(2, 2)"] run rect_ex3
  show ?thesis
    by simp
qed

text \<open>
  The condition on the grid is needed: where a row is shorter than row 0 the search
  reads a cell that does not exist, and what the program does from there on is not
  defined.
\<close>

lemma a_star_ragged_grid_fails:
  "a_star ascending [[0, 0], [0]] (0, 0) (1, 1) = Some (Inl OutOfBounds)"
  "a_star descending [[0, 0], [0]] (0, 0) (1, 1) = Some (Inl OutOfBounds)"
  by code_simp+

text \<open>
  A blocked start: on the grid \<open>[[1, 0]]\<close> the path from (0, 0) to (0, 1) is returned
  although the cell (0, 0) holds 1.
\<close>

theorem a_star_path_blocked_start:
  "a_star ascending [[1, 0]] (0, 0) (0, 1) = Some (Inr [(0, 0), (0, 1)]) \<and>
   \<not> walkable [[1, 0]] (0, 0)"
  by code_simp

section \<open>Results of the search\<close>

text \<open>
  Claim C7. As stated (for every input) the claim fails: on the grid without rows, with
  start different from goal, the first pass reads \<^verbatim>\<open>grid[0]\<close>, which does not exist.
  Amended: for every grid that has at least one row and whose rows all have one length,
  and for every start and goal, \<open>a_star\<close> returns either the empty sequence or a complete
  path from start to goal (each step goes to an adjacent walkable cell), never an error
  and never a partial path; when the goal cannot be reached from the start by steps to
  adjacent walkable cells (the cell of the start itself is not checked) it returns the
  empty sequence.
\<close>

theorem a_star_result_rectangular:
  assumes "rectangular grid"
  shows "\<exists>path. a_star addr grid start goal = Some (Inr path) \<and>
           (path = [] \<or> complete_path grid start goal path) \<and>
           (\<not> reachable grid start goal \<longrightarrow> path = [])"
proof -
  from a_star_result [of addr grid start goal] obtain r where
    r: "a_star addr grid start goal = Some r" "result_ok grid start goal r"
    by blast
  from r(2) assms obtain path where path: "r = Inr path" "path = [] \<or> path_ok grid start goal path"
    by (cases r) (simp_all add: result_ok_def)
  from path(2) have "path = [] \<or> complete_path grid start goal path"
    by (auto dest: path_ok_complete)
  moreover from this have "\<not> reachable grid start goal \<longrightarrow> path = []"
    by (auto dest: complete_path_reachable)
  ultimately show ?thesis using r(1) path(1) by blast
qed

lemma rect_ex: "rectangular [[0, 1], [1, 0]]"
  by (simp add: rectangular_def)

lemma walkable_two_by_two:
  assumes "walkable [[0, 1], [1, 0]] c"
  shows "c = (0, 0) \<or> c = (1, 1)"
proof -
  obtain a b where c: "c = (a, b)" by (cases c)
  from assms c have a: "0 \<le> sint a" "nat (sint a) < 2"
    by (simp_all add: walkable_def)
  then have a01: "sint a = 0 \<or> sint a = 1" by linarith
  then have a': "a = 0 \<or> a = 1"
    using word_eq_of_sint [of a 0] word_eq_of_sint [of a 1] by auto
  from assms c a' have b: "0 \<le> sint b" "nat (sint b) < 2"
    by (auto simp: walkable_def)
  then have "sint b = 0 \<or> sint b = 1" by linarith
  then have b': "b = 0 \<or> b = 1"
    using word_eq_of_sint [of b 0] word_eq_of_sint [of b 1] by auto
  from assms c a' b' show ?thesis
    by (auto simp: walkable_def)
qed

lemma no_move_two_by_two: "\<not> move [[0, 1], [1, 0]] (0, 0) c"
proof
  assume m: "move [[0, 1], [1, 0]] (0, 0) c"
  then have "c = (0, 0) \<or> c = (1, 1)"
    by (simp add: move_def walkable_two_by_two)
  with m show False
    by (auto simp: move_def adjacent_def)
qed

lemma unreachable_two_by_two: "\<not> reachable [[0, 1], [1, 0]] (0, 0) (1, 1)"
proof
  assume "reachable [[0, 1], [1, 0]] (0, 0) (1, 1)"
  then have "((0, 0), (1, 1)) \<in> {(p, q). move [[0, 1], [1, 0]] p q}\<^sup>*"
    by (simp add: reachable_def)
  then show False
    by (rule converse_rtranclE) (simp_all add: no_move_two_by_two)
qed

theorem a_star_result_rectangular_witness:
  "rectangular [[0, 1], [1, 0]] \<and> \<not> reachable [[0, 1], [1, 0]] (0, 0) (1, 1) \<and>
   a_star ascending [[0, 1], [1, 0]] (0, 0) (1, 1) = Some (Inr [])"
  using a_star_result_rectangular [OF rect_ex, of ascending "(0, 0)" "(1, 1)"]
    unreachable_two_by_two rect_ex
  by auto

text \<open>The grid without rows, start different from goal.\<close>

theorem a_star_empty_grid_fails:
  "a_star ascending [] (0, 0) (0, 1) = Some (Inl OutOfBounds)"
  by code_simp

text \<open>
  On such a grid, with dimensions that fit in \<^verbatim>\<open>int\<close>, the empty sequence is returned
  exactly when the goal is unreachable: the search registers every coordinate that can be
  reached from the start before the open set runs empty.
\<close>

lemma a_star_empty_iff_unreachable:
  assumes "rectangular grid" "int_sized grid"
  shows "(a_star addr grid start goal = Some (Inr [])) = (\<not> reachable grid start goal)"
proof
  assume "a_star addr grid start goal = Some (Inr [])"
  with a_star_finds_reachable [OF assms, of start goal addr]
  show "\<not> reachable grid start goal" by blast
next
  assume unreachable: "\<not> reachable grid start goal"
  from a_star_result [of addr grid start goal] obtain r where
    r: "a_star addr grid start goal = Some r" "result_ok grid start goal r"
    by blast
  from r(2) assms(1) obtain path where path: "r = Inr path" "path = [] \<or> path_ok grid start goal path"
    by (cases r) (simp_all add: result_ok_def)
  from path(2) unreachable have "path = []"
    by (auto dest: path_ok_complete complete_path_reachable)
  with r(1) path(1) show "a_star addr grid start goal = Some (Inr [])"
    by simp
qed

section \<open>Grid accesses\<close>

text \<open>
  Claim C10. For every grid that has at least one row and whose rows all have one
  length, no grid access of \<open>a_star\<close> is out of range, for any start and goal, also those
  outside the grid or on blocked cells: \<^verbatim>\<open>get_neighbors\<close> never fails on such a grid (the
  four comparisons imply that the cell read exists, and \<^verbatim>\<open>grid[0]\<close> exists), and \<open>a_star\<close>
  returns a sequence.
\<close>

theorem a_star_no_out_of_bounds:
  assumes "rectangular grid"
  shows "(\<exists>neighbors. get_neighbors node grid = Inr neighbors) \<and>
         (\<exists>path. a_star addr grid start goal = Some (Inr path))"
proof -
  from a_star_result [of addr grid start goal] obtain r where
    r: "a_star addr grid start goal = Some r" "result_ok grid start goal r"
    by blast
  from r(2) assms obtain path where "r = Inr path"
    by (cases r) (simp_all add: result_ok_def)
  with r(1) show ?thesis
    by (simp add: get_neighbors_rectangular [OF assms])
qed

lemma rect_ex4: "rectangular [[0, 0], [1, 0]]"
  by (simp add: rectangular_def)

theorem a_star_no_out_of_bounds_witness:
  "rectangular [[0, 0], [1, 0]] \<and>
   (\<exists>neighbors. get_neighbors (new_Node (- 1) 0) [[0, 0], [1, 0]] = Inr neighbors) \<and>
   (\<exists>path. a_star ascending [[0, 0], [1, 0]] (- 1, 0) (1, 0) = Some (Inr path))"
  using a_star_no_out_of_bounds [OF rect_ex4, of "new_Node (- 1) 0" ascending "(- 1, 0)" "(1, 0)"] rect_ex4
  by simp

section \<open>Start equal to goal\<close>

lemma top_singleton: "top_pq addr [p] = p"
  by (simp add: top_pq_def)

lemma first_pass_same_cell:
  "a_star_step addr grid (new_Node (fst p) (snd p)) (a_star_init p p) = Some (Return (Inr [p]))"
  by (simp add: a_star_step_def a_star_init_def top_pq_def pop_pq_def new_Node_def
      reconstruct_path_def reconstruct_walk.simps)

lemma a_star_same_cell: "a_star addr grid p p = Some (Inr [p])"
  unfolding a_star_def
  by (subst a_star_loop.simps) (simp add: first_pass_same_cell, simp add: a_star_init_def)

text \<open>
  Claim C6. For every grid, if start equals goal then \<open>a_star\<close> returns exactly the
  one-element sequence \<open>[start]\<close>: the first pass through the loop pops the start node,
  whose \<open>g\<close> is 0, finds the goal test true and returns.
\<close>

theorem a_star_start_is_goal:
  "start = goal \<Longrightarrow>
     a_star addr grid start goal = Some (Inr [start]) \<and>
     a_star_step addr grid (new_Node (fst goal) (snd goal)) (a_star_init start goal)
       = Some (Return (Inr [start])) \<and>
     node_g (store (a_star_init start goal) ! top_pq addr (openSet (a_star_init start goal))) = 0"
  by (simp add: a_star_same_cell first_pass_same_cell)
     (simp add: a_star_init_def top_pq_def new_Node_def)

theorem a_star_start_is_goal_witness:
  "((0, 0) :: coord) = (0, 0) \<and> a_star ascending [[0]] (0, 0) (0, 0) = Some (Inr [(0, 0)])"
  using a_star_start_is_goal [of "(0, 0)" "(0, 0)" ascending "[[0]]"] by simp

text \<open>
  Claim C9. For every grid and every coordinate \<open>p\<close>, \<open>a_star\<close> from \<open>p\<close> to \<open>p\<close> returns
  \<open>[p]\<close>, whether or not \<open>p\<close> lies in the grid or on a walkable cell: the result is
  reached before the grid is read, so it is the same for every grid.
\<close>

theorem a_star_same_cell_ignores_grid:
  "a_star addr grid p p = Some (Inr [p]) \<and> a_star addr grid' p p = a_star addr grid p p"
  by (simp add: a_star_same_cell)

text \<open>Instances: a blocked cell, a coordinate outside the grid, the grid without rows.\<close>

lemma a_star_same_cell_examples:
  "a_star ascending [[1]] (0, 0) (0, 0) = Some (Inr [(0, 0)])"
  "\<not> walkable [[1]] (0, 0)"
  "a_star ascending [[0]] (7, - 3) (7, - 3) = Some (Inr [(7, - 3)])"
  "\<not> walkable [[0]] (7, - 3)"
  "a_star ascending [] (0, 0) (0, 0) = Some (Inr [(0, 0)])"
  by (simp_all add: a_star_same_cell walkable_def)

section \<open>The order of the open set\<close>

text \<open>
  Claim C2. At every pass of the main loop the node removed from the open set should have
  an \<open>f\<close> no greater than that of every node still queued. The queue compares pointers,
  not \<open>f\<close>. On the open 3 by 7 grid, from (1, 1) to (1, 5), with addresses growing in
  allocation order: after the first pass the queue holds the four neighbours of the start,
  pointers 2 to 5 (up, down, left, right). The next node popped is pointer 2, the cell
  (0, 1) with \<open>f = 6\<close>, while pointer 5, the cell (1, 2) with \<open>f = 4\<close>, stays queued.
\<close>

theorem open_set_pops_by_address_not_f:
  "(case a_star_steps 1 ascending (replicate 3 (replicate 7 0)) (new_Node 1 5)
           (a_star_init (1, 1) (1, 5)) of
      Some (Continue s) \<Rightarrow>
        openSet s = [2, 3, 4, 5] \<and>
        top_pq ascending (openSet s) = 2 \<and>
        coord_of (store s ! 2) = (0, 1) \<and> node_f (store s ! 2) = 6 \<and>
        coord_of (store s ! 5) = (1, 2) \<and> node_f (store s ! 5) = 4
    | _ \<Rightarrow> False)"
  by code_simp

text \<open>
  The same holds under every allocator. The first pass only pops the start node, so the
  state after it does not depend on the addresses. From the centre of the open 3 by 3
  grid it queues the four neighbours, pointers 2 to 5; whichever of them has the least
  address, a goal on the opposite neighbour gives the popped node \<open>f = 3\<close> while the node
  on the goal has \<open>f = 1\<close>.
\<close>

lemma first_pass_ignores_addresses:
  "a_star_steps 1 addr grid goalNode (a_star_init start goal) =
   a_star_steps 1 addr' grid goalNode (a_star_init start goal)"
proof -
  have "a_star_step addr grid goalNode (a_star_init start goal) =
        a_star_step addr' grid goalNode (a_star_init start goal)"
    by (simp add: a_star_step_def a_star_init_def top_singleton pop_pq_def)
  then show ?thesis
    by (simp add: a_star_init_def split: option.splits step_result.splits)
qed

lemma f_after_first_pass_values:
  "f_after_first_pass (2, 1) = Some ([2, 3, 4, 5], [0, 0, 3, 1, 3, 3])"
  "f_after_first_pass (0, 1) = Some ([2, 3, 4, 5], [0, 0, 1, 3, 3, 3])"
  "f_after_first_pass (1, 2) = Some ([2, 3, 4, 5], [0, 0, 3, 3, 3, 1])"
  "f_after_first_pass (1, 0) = Some ([2, 3, 4, 5], [0, 0, 3, 3, 1, 3])"
  by code_simp+

lemma pop_not_least_f:
  assumes "f_after_first_pass goal = Some ([2, 3, 4, 5], fs)"
    and "top_pq addr [2, 3, 4, 5] = t" and "fs ! q < fs ! t" and "q \<in> {2, 3, 4, 5}" "t \<in> {2, 3, 4, 5}"
  shows "case a_star_steps 1 addr open3 (new_Node (fst goal) (snd goal)) (a_star_init (1, 1) goal) of
           Some (Continue s) \<Rightarrow>
             q \<in> set (openSet s) \<and> node_f (store s ! q) < node_f (store s ! top_pq addr (openSet s))
         | _ \<Rightarrow> False"
proof -
  let ?r = "a_star_steps 1 ascending open3 (new_Node (fst goal) (snd goal)) (a_star_init (1, 1) goal)"
  from assms(1) obtain s where s: "?r = Some (Continue s)" "openSet s = [2, 3, 4, 5]"
    "map (\<lambda>p. node_f (store s ! p)) [0, 1, 2, 3, 4, 5] = fs"
    by (auto simp: f_after_first_pass_def split: option.splits step_result.splits)
  from s(3) assms(4,5) have "fs ! q = node_f (store s ! q)" "fs ! t = node_f (store s ! t)"
    by auto
  with assms(2,3,4) s(2) have "q \<in> set (openSet s) \<and>
      node_f (store s ! q) < node_f (store s ! top_pq addr (openSet s))"
    by auto
  with s(1) show ?thesis
    by (simp only: first_pass_ignores_addresses [of addr _ _ _ _ ascending]) simp
qed

lemma open_set_order_any_allocator:
  "\<exists>goal q. case a_star_steps 1 addr open3 (new_Node (fst goal) (snd goal)) (a_star_init (1, 1) goal) of
       Some (Continue s) \<Rightarrow>
         q \<in> set (openSet s) \<and> node_f (store s ! q) < node_f (store s ! top_pq addr (openSet s))
     | _ \<Rightarrow> False"
proof -
  have "top_pq addr [2, 3, 4, 5] \<in> set [2, 3, 4, 5]"
    by (rule top_in_openSet) simp
  then consider "top_pq addr [2, 3, 4, 5] = 2" | "top_pq addr [2, 3, 4, 5] = 3"
    | "top_pq addr [2, 3, 4, 5] = 4" | "top_pq addr [2, 3, 4, 5] = 5"
    by auto
  then show ?thesis
  proof cases
    case 1
    from pop_not_least_f [OF f_after_first_pass_values(1) 1, of 3] show ?thesis
      by (intro exI [of _ "(2, 1)"] exI [of _ 3]) simp
  next
    case 2
    from pop_not_least_f [OF f_after_first_pass_values(2) 2, of 2] show ?thesis
      by (intro exI [of _ "(0, 1)"] exI [of _ 2]) simp
  next
    case 3
    from pop_not_least_f [OF f_after_first_pass_values(3) 3, of 5] show ?thesis
      by (intro exI [of _ "(1, 2)"] exI [of _ 5]) simp
  next
    case 4
    from pop_not_least_f [OF f_after_first_pass_values(4) 4, of 4] show ?thesis
      by (intro exI [of _ "(1, 0)"] exI [of _ 4]) simp
  qed
qed

section \<open>The admission test of the registry\<close>

text \<open>
  Claim C3. A neighbour whose coordinate is already registered with a larger \<open>g\<close> than
  \<open>tentative_g\<close> should be queued again and overwrite the registry entry, so that the
  registry holds the least \<open>g\<close> found so far. The source compares \<open>tentative_g\<close> with the
  \<open>g\<close> of the node just constructed, which is 0. On the grid below (column 2 is a wall,
  the goal (0, 3) lies behind it), with addresses shrinking in allocation order, five
  passes register the cell (2, 0) with \<open>g = 4\<close> (pointer 10). The sixth pass expands the
  cell (1, 0), whose \<open>g\<close> is 1, and constructs the neighbour (2, 0) (pointer 14) with
  \<open>tentative_g = 2 < 4\<close>; the registry entry keeps \<open>g = 4\<close> and nothing is queued.
\<close>

theorem better_g_is_not_admitted:
  "(case a_star_steps 5 descending [[0, 0, 1, 0], [0, 0, 1, 0], [0, 0, 1, 0]] (new_Node 0 3)
           (a_star_init (0, 0) (0, 3)) of
      Some (Continue s) \<Rightarrow>
        allNodes s (2, 0) = Some 10 \<and> node_g (store s ! 10) = 4 \<and>
        top_pq descending (openSet s) = 2 \<and>
        coord_of (store s ! 2) = (1, 0) \<and> node_g (store s ! 2) = 1 \<and>
        (case a_star_step descending [[0, 0, 1, 0], [0, 0, 1, 0], [0, 0, 1, 0]] (new_Node 0 3) s of
           Some (Continue s') \<Rightarrow>
             coord_of (store s' ! 14) = (2, 0) \<and> node_g (store s' ! 14) = 0 \<and>
             allNodes s' (2, 0) = Some 10 \<and> node_g (store s' ! 10) = 4 \<and> openSet s' = []
         | _ \<Rightarrow> False)
    | _ \<Rightarrow> False)"
  by code_simp

section \<open>Length of the returned path\<close>

text \<open>
  Claim C1. For a reachable goal the returned path should have the least possible number
  of steps. On the open 3 by 2 grid, from (0, 0) to (2, 0), with addresses shrinking in
  allocation order, \<open>a_star\<close> returns a path of 4 steps, although the path straight down
  has 2 steps. With addresses growing in allocation order the same call returns the path
  of 2 steps: the result depends on where the allocator places the nodes.
\<close>

theorem a_star_path_not_shortest:
  "a_star descending [[0, 0], [0, 0], [0, 0]] (0, 0) (2, 0)
     = Some (Inr [(0, 0), (0, 1), (1, 1), (2, 1), (2, 0)]) \<and>
   complete_path [[0, 0], [0, 0], [0, 0]] (0, 0) (2, 0) [(0, 0), (1, 0), (2, 0)] \<and>
   a_star ascending [[0, 0], [0, 0], [0, 0]] (0, 0) (2, 0)
     = Some (Inr [(0, 0), (1, 0), (2, 0)])"
  by code_simp

end
